theory Spec2Isabelle
  imports Main "HOL-Library.Word"
begin

section \<open>Shape (primitiv/shape.h)\<close>

text \<open>
  The fields of a \<open>Shape\<close> are C++ \<open>unsigned\<close> values; they are 32-bit words here, so
  that the product in \<open>num_total_elements\<close> wraps as it does in the source. A private
  member \<open>x_\<close> of the source is the field \<open>x_f\<close> of the record (a name cannot end with an
  underscore here).
\<close>

type_synonym unsigned = "32 word"

record Shape =
  dims_f :: "unsigned list"
  k_f :: unsigned
  num_elms_per_sample_f :: unsigned

text \<open>\<open>Shape()\<close>: the scalar shape.\<close>

definition Shape_scalar :: Shape where
  "Shape_scalar = \<lparr>dims_f = [], k_f = 1, num_elms_per_sample_f = 1\<rparr>"

text \<open>\<open>depth()\<close> returns \<open>dims_.size()\<close> converted to \<open>unsigned\<close>.\<close>

definition depth :: "Shape \<Rightarrow> unsigned" where
  "depth s = word_of_nat (length (dims_f s))"

text \<open>\<open>operator[]\<close>: \<open>i < depth() ? dims_[i] : 1\<close>.\<close>

definition extent :: "Shape \<Rightarrow> unsigned \<Rightarrow> unsigned" where
  "extent s i = (if i < depth s then dims_f s ! unat i else 1)"

definition batch_size :: "Shape \<Rightarrow> unsigned" where
  "batch_size s = k_f s"

definition num_elements_per_sample :: "Shape \<Rightarrow> unsigned" where
  "num_elements_per_sample s = num_elms_per_sample_f s"

definition num_total_elements :: "Shape \<Rightarrow> unsigned" where
  "num_total_elements s = k_f s * num_elms_per_sample_f s"

definition has_same_dims :: "Shape \<Rightarrow> Shape \<Rightarrow> bool" where
  "has_same_dims s rhs = (dims_f s = dims_f rhs)"

definition has_compatible_batch :: "Shape \<Rightarrow> Shape \<Rightarrow> bool" where
  "has_compatible_batch s rhs = (k_f s = k_f rhs \<or> k_f s = 1 \<or> k_f rhs = 1)"

definition Shape_eq :: "Shape \<Rightarrow> Shape \<Rightarrow> bool" where
  "Shape_eq s rhs = (has_same_dims s rhs \<and> k_f s = k_f rhs)"

section \<open>Tensor, Device and Function: the collaborators of the graph\<close>

text \<open>
  Modelled from the spec: the classes \<open>Tensor\<close>, \<open>Device\<close> and \<open>Function\<close> (tensor.h,
  device.h and function.h are not among the sources). A \<open>Tensor\<close> is either the invalid
  tensor \<open>Tensor()\<close>, for which \<open>valid()\<close> is false, or an assigned tensor with its device,
  its shape and its elements. The element type is a parameter (\<open>float\<close> in the source);
  the graph never looks at an element. A device is named by a number.
\<close>

record 'a Assigned =
  t_device :: nat
  t_shape :: Shape
  t_data :: "'a list"

type_synonym 'a Tensor = "'a Assigned option"

definition valid :: "'a Tensor \<Rightarrow> bool" where
  "valid t = (t \<noteq> None)"

text \<open>
  Modelled from the spec: \<open>Device::constant(shape, k)\<close>, the tensor of the given shape on
  this device whose elements are all \<open>k\<close>.
\<close>

definition Device_constant :: "nat \<Rightarrow> Shape \<Rightarrow> 'a \<Rightarrow> 'a Assigned" where
  "Device_constant dev s k =
     \<lparr>t_device = dev, t_shape = s, t_data = replicate (unat (num_total_elements s)) k\<rparr>"

text \<open>
  Modelled from the spec: the virtual interface of \<open>Function\<close>.
  \<^item> \<open>forward_shape\<close> returns the shape of the result or throws (\<open>None\<close>);
  \<^item> \<open>f_forward\<close> (\<open>Function::forward\<close>) is a pure function from the operand tensors it
    is handed to the result value, an assigned tensor;
  \<^item> \<open>f_backward\<close> (\<open>Function::backward\<close>) accumulates in place into the gradient buffers
    it is handed: given the value and gradient of the node and the operand values,
    \<open>f_backward f v g vals i\<close> is what it does to the \<open>i\<close>-th buffer of the list.
\<close>

record 'a Function =
  forward_shape :: "Shape list \<Rightarrow> Shape option"
  f_forward :: "'a Tensor list \<Rightarrow> 'a Assigned"
  f_backward :: "'a Tensor \<Rightarrow> 'a Tensor \<Rightarrow> 'a Tensor list \<Rightarrow> nat \<Rightarrow> 'a Assigned \<Rightarrow> 'a Assigned"

section \<open>Graph: nodes, handles and outcomes\<close>

text \<open>
  \<open>NodeInfo\<close> as \<open>Graph::add_function\<close> builds it: shape, function, value, gradient,
  operand positions and sink positions. Node positions (\<open>unsigned\<close> in the source, and
  \<open>int\<close> in the loop of \<open>Graph::backward\<close>) are natural numbers. In a graph with fewer
  than \<open>2^31\<close> nodes the conversions between \<open>size_t\<close>, \<open>unsigned\<close> and \<open>int\<close> change no
  position; what is proved of the positions \<open>add_function\<close> hands out and of the countdown
  of \<open>backward\<close> is proved of such graphs, and says so.
\<close>

record 'a NodeInfo =
  shape :: Shape
  func :: "'a Function"
  value' :: "'a Tensor"
  grad :: "'a Tensor"
  args :: "nat list"
  sinks :: "nat list"

text \<open>
  What the graph asks of its collaborators, in the order of the calls. \<open>Forward_call id vals\<close>:
  \<open>Function::forward\<close> of node \<open>id\<close> on the operand values \<open>vals\<close>.
  \<open>Constant_call id t\<close>: \<open>Device::constant\<close> returned \<open>t\<close>, which became the gradient of
  node \<open>id\<close>. \<open>Backward_call id ptrs vals grads\<close>: \<open>Function::backward\<close> of node \<open>id\<close>;
  \<open>ptrs\<close> are the operands whose gradient buffers \<open>arg_grads\<close> points to, \<open>vals\<close> and
  \<open>grads\<close> the operand values and the gradient buffers as they are when the call is made.
\<close>

datatype 'a event =
  Forward_call nat "'a Tensor list"
| Constant_call nat "'a Assigned"
| Backward_call nat "nat list" "'a Tensor list" "'a Tensor list"

text \<open>
  The graph: its address (\<open>this\<close>, what a handle's \<open>g_\<close> is compared with) and its node
  records. \<open>calls\<close> is not a member of the class: it is the history of the calls made
  to the collaborators so far, kept to state how often and with what they are called.
\<close>

record 'a Graph =
  this :: nat
  nodes_f :: "'a NodeInfo list"
  calls :: "'a event list"

record Node =
  g_f :: nat
  id_f :: nat

text \<open>
  How a call ends. \<open>Returns g r\<close>: it returns \<open>r\<close> and leaves the graph \<open>g\<close>.
  \<open>Throws g e\<close>: it throws \<open>std::runtime_error\<close>, and the caller that catches it finds the
  graph \<open>g\<close>. \<open>Aborts\<close>: \<open>std::abort()\<close>. \<open>Undefined\<close>: an index outside \<open>nodes_\<close> or the
  device of an invalid tensor is used. \<open>Diverges\<close>: the recursion does not return.
\<close>

datatype exn =
  Graph_mismatched
| Shape_mismatch
| Not_calculated nat
| Already_has_gradient nat

datatype ('a, 'r) outcome =
  Returns "'a Graph" 'r
| Throws "'a Graph" exn
| Aborts
| Undefined
| Diverges

fun bind :: "('a, 'r) outcome \<Rightarrow> ('a Graph \<Rightarrow> 'r \<Rightarrow> ('a, 's) outcome) \<Rightarrow> ('a, 's) outcome" where
  "bind (Returns g r) k = k g r"
| "bind (Throws g e) k = Throws g e"
| "bind Aborts k = Aborts"
| "bind Undefined k = Undefined"
| "bind Diverges k = Diverges"

text \<open>The macro \<open>CHECK_NODE\<close>: the graph of the handle first, then its position.\<close>

definition CHECK_NODE :: "'a Graph \<Rightarrow> Node \<Rightarrow> ('a, unit) outcome" where
  "CHECK_NODE g node =
     (if g_f node \<noteq> this g then Throws g Graph_mismatched
      else if id_f node \<ge> length (nodes_f g) then Aborts
      else Returns g ())"

section \<open>Graph::add_function\<close>

text \<open>The first loop: every handle is checked, its position and shape are gathered.\<close>

fun gather :: "'a Graph \<Rightarrow> Node list \<Rightarrow> nat list \<Rightarrow> Shape list \<Rightarrow> ('a, nat list \<times> Shape list) outcome" where
  "gather g [] arg_ids arg_shapes = Returns g (arg_ids, arg_shapes)"
| "gather g (arg # rest) arg_ids arg_shapes =
     bind (CHECK_NODE g arg) (\<lambda>g _.
       gather g rest (arg_ids @ [id_f arg]) (arg_shapes @ [shape (nodes_f g ! id_f arg)]))"

text \<open>
  The second loop: \<open>nodes_[arg_id]->sinks.emplace_back(ret_id)\<close>. In the source
  \<open>ret_id\<close> is \<open>nodes_.size()\<close> converted to \<open>unsigned\<close>; here it is the number of nodes
  itself, which is the same below \<open>2^32\<close> nodes. The theorems about the position handed
  out and about the sink lists assume fewer than \<open>2^31\<close> nodes.
\<close>

fun add_sinks :: "nat \<Rightarrow> nat list \<Rightarrow> 'a NodeInfo list \<Rightarrow> 'a NodeInfo list" where
  "add_sinks ret_id [] ns = ns"
| "add_sinks ret_id (arg_id # rest) ns =
     add_sinks ret_id rest (ns[arg_id := (ns ! arg_id)\<lparr>sinks := sinks (ns ! arg_id) @ [ret_id]\<rparr>])"

definition add_function :: "'a Graph \<Rightarrow> 'a Function \<Rightarrow> Node list \<Rightarrow> ('a, Node) outcome" where
  "add_function g fn as =
     bind (gather g as [] []) (\<lambda>g (arg_ids, arg_shapes).
       case forward_shape fn arg_shapes of
         None \<Rightarrow> Throws g Shape_mismatch
       | Some ret_shape \<Rightarrow>
           let ret_id = length (nodes_f g);
               ns = add_sinks ret_id arg_ids (nodes_f g);
               n = \<lparr>shape = ret_shape, func = fn, value' = None, grad = None,
                    args = arg_ids, sinks = []\<rparr>
           in Returns (g\<lparr>nodes_f := ns @ [n]\<rparr>) \<lparr>g_f = this g, id_f = ret_id\<rparr>)"

section \<open>Graph::forward\<close>

definition set_value :: "'a Graph \<Rightarrow> nat \<Rightarrow> 'a Tensor \<Rightarrow> 'a Graph" where
  "set_value g i t = g\<lparr>nodes_f := (nodes_f g)[i := (nodes_f g ! i)\<lparr>value' := t\<rparr>]\<rparr>"

definition set_grad :: "'a Graph \<Rightarrow> nat \<Rightarrow> 'a Tensor \<Rightarrow> 'a Graph" where
  "set_grad g i t = g\<lparr>nodes_f := (nodes_f g)[i := (nodes_f g ! i)\<lparr>grad := t\<rparr>]\<rparr>"

definition record_call :: "'a Graph \<Rightarrow> 'a event \<Rightarrow> 'a Graph" where
  "record_call g ev = g\<lparr>calls := calls g @ [ev]\<rparr>"

text \<open>
  The loop over \<open>n.args\<close> in \<open>forward_recursive\<close>: the recursive call on the operand
  (\<open>recur\<close>), then a pointer to the operand's value is gathered (its position here).
\<close>

fun forward_args :: "('a Graph \<Rightarrow> nat \<Rightarrow> ('a, unit) outcome) \<Rightarrow> 'a Graph \<Rightarrow> nat list \<Rightarrow> nat list \<Rightarrow> ('a, nat list) outcome" where
  "forward_args recur g [] ptrs = Returns g ptrs"
| "forward_args recur g (arg_id # rest) ptrs =
     bind (recur g arg_id) (\<lambda>g _. forward_args recur g rest (ptrs @ [arg_id]))"

text \<open>
  The lambda \<open>forward_recursive\<close>. The first argument bounds the depth of the recursion;
  when it is used up the recursion is taken not to return.
\<close>

primrec forward_recursive :: "nat \<Rightarrow> 'a Graph \<Rightarrow> nat \<Rightarrow> ('a, unit) outcome" where
  "forward_recursive 0 g i = Diverges"
| "forward_recursive (Suc fuel) g i =
     (if i \<ge> length (nodes_f g) then Undefined
      else if valid (value' (nodes_f g ! i)) then Returns g ()
      else bind (forward_args (forward_recursive fuel) g (args (nodes_f g ! i)) []) (\<lambda>g ptrs.
        let vals = map (\<lambda>p. value' (nodes_f g ! p)) ptrs;
            v = f_forward (func (nodes_f g ! i)) vals
        in Returns (record_call (set_value g i (Some v)) (Forward_call i vals)) ()))"

text \<open>
  \<open>Graph::forward\<close>. A recursion deeper than the number of nodes has met a node twice on
  one path and never returns, so that number bounds the depth.
\<close>

definition forward :: "'a Graph \<Rightarrow> Node \<Rightarrow> ('a, 'a Tensor) outcome" where
  "forward g node =
     bind (CHECK_NODE g node) (\<lambda>g _.
       bind (forward_recursive (length (nodes_f g)) g (id_f node)) (\<lambda>g _.
         Returns g (value' (nodes_f g ! id_f node))))"

section \<open>Graph::backward\<close>

text \<open>
  The call \<open>cur_node.func->backward(cur_node.value, cur_node.grad, arg_values, arg_grads)\<close>:
  the two lists hold pointers into the node records (positions here); the function
  accumulates into each buffer of \<open>arg_grads\<close> in turn.
\<close>

fun accumulate :: "(nat \<Rightarrow> 'a Assigned \<Rightarrow> 'a Assigned) \<Rightarrow> nat \<Rightarrow> nat list \<Rightarrow> 'a NodeInfo list \<Rightarrow> 'a NodeInfo list" where
  "accumulate upd i [] ns = ns"
| "accumulate upd i (p # ps) ns =
     accumulate upd (Suc i) ps (ns[p := (ns ! p)\<lparr>grad := map_option (upd i) (grad (ns ! p))\<rparr>])"

definition call_backward :: "'a Graph \<Rightarrow> nat \<Rightarrow> nat list \<Rightarrow> nat list \<Rightarrow> 'a Graph" where
  "call_backward g i arg_values arg_grads =
     (let cur_node = nodes_f g ! i;
          vals = map (\<lambda>p. value' (nodes_f g ! p)) arg_values;
          grads = map (\<lambda>p. grad (nodes_f g ! p)) arg_grads;
          upd = f_backward (func cur_node) (value' cur_node) (grad cur_node) vals
      in record_call (g\<lparr>nodes_f := accumulate upd 0 arg_grads (nodes_f g)\<rparr>)
           (Backward_call i arg_grads vals grads))"

text \<open>\<open>if (!arg_node.grad.valid()) arg_node.grad = arg_node.value.device()->constant(arg_node.shape, 0)\<close>.\<close>

definition ensure_grad :: "'a::zero Graph \<Rightarrow> nat \<Rightarrow> ('a, unit) outcome" where
  "ensure_grad g arg =
     (let arg_node = nodes_f g ! arg in
      if valid (grad arg_node) then Returns g ()
      else case value' arg_node of
             None \<Rightarrow> Undefined
           | Some v \<Rightarrow>
               let t = Device_constant (t_device v) (shape arg_node) 0
               in Returns (record_call (set_grad g arg (Some t)) (Constant_call arg t)) ())"

text \<open>
  The loop over \<open>cur_node.args\<close>, with the two vectors it grows. The call of
  \<open>Function::backward\<close> stands inside the loop, as in the source.
\<close>

fun backward_args :: "'a::zero Graph \<Rightarrow> nat \<Rightarrow> nat list \<Rightarrow> nat list \<Rightarrow> nat list \<Rightarrow> ('a, unit) outcome" where
  "backward_args g i [] arg_values arg_grads = Returns g ()"
| "backward_args g i (arg # rest) arg_values arg_grads =
     (if arg \<ge> length (nodes_f g) then Undefined
      else bind (ensure_grad g arg) (\<lambda>g _.
        backward_args (call_backward g i (arg_values @ [arg]) (arg_grads @ [arg])) i rest
          (arg_values @ [arg]) (arg_grads @ [arg])))"

text \<open>
  The body of the loop \<open>for (int id = node.id_; id >= 0; --id)\<close>, and the loop as a
  countdown of a natural number from the target's position to 0. The \<open>int\<close> of the
  source holds the target's position when that is below \<open>2^31\<close>; the theorem about the
  order of the visits assumes fewer than \<open>2^31\<close> nodes.
\<close>

definition backward_node :: "'a::zero Graph \<Rightarrow> nat \<Rightarrow> ('a, unit) outcome" where
  "backward_node g i =
     (if i \<ge> length (nodes_f g) then Undefined
      else if \<not> valid (value' (nodes_f g ! i)) then Returns g ()
      else backward_args g i (args (nodes_f g ! i)) [] [])"

fun backward_loop :: "'a::zero Graph \<Rightarrow> nat \<Rightarrow> ('a, unit) outcome" where
  "backward_loop g 0 = backward_node g 0"
| "backward_loop g (Suc i) = bind (backward_node g (Suc i)) (\<lambda>g _. backward_loop g i)"

definition backward :: "'a::{zero,one} Graph \<Rightarrow> Node \<Rightarrow> ('a, unit) outcome" where
  "backward g node =
     bind (CHECK_NODE g node) (\<lambda>g _.
       let last_node = nodes_f g ! id_f node in
       case value' last_node of
         None \<Rightarrow> Throws g (Not_calculated (id_f node))
       | Some v \<Rightarrow>
           if valid (grad last_node) then Throws g (Already_has_gradient (id_f node))
           else
             let t = Device_constant (t_device v) (shape last_node) 1
             in backward_loop (record_call (set_grad g (id_f node) (Some t))
                  (Constant_call (id_f node) t)) (id_f node))"

section \<open>Graph::get_value and Graph::get_gradient\<close>

definition get_value :: "'a Graph \<Rightarrow> Node \<Rightarrow> ('a, 'a Tensor) outcome" where
  "get_value g node =
     bind (CHECK_NODE g node) (\<lambda>g _. Returns g (value' (nodes_f g ! id_f node)))"

definition get_gradient :: "'a Graph \<Rightarrow> Node \<Rightarrow> ('a, 'a Tensor) outcome" where
  "get_gradient g node =
     bind (CHECK_NODE g node) (\<lambda>g _. Returns g (grad (nodes_f g ! id_f node)))"

section \<open>The life of a graph and what holds throughout\<close>

text \<open>A handle passes \<open>CHECK_NODE\<close>: it names this graph and a position in it.\<close>

definition passes :: "'a Graph \<Rightarrow> Node \<Rightarrow> bool" where
  "passes g n = (g_f n = this g \<and> id_f n < length (nodes_f g))"

text \<open>The graph a call leaves to its caller, when it returns or throws.\<close>

fun leaves :: "('a, 'r) outcome \<Rightarrow> 'a Graph \<Rightarrow> bool" where
  "leaves (Returns g r) g' = (g' = g)"
| "leaves (Throws g e) g' = (g' = g)"
| "leaves Aborts g' = False"
| "leaves Undefined g' = False"
| "leaves Diverges g' = False"

text \<open>
  The states of a graph: the new graph (the constructor leaves \<open>nodes_\<close> empty), and
  what any call of a public member function leaves of such a state.
\<close>

inductive lifetime :: "'a::{zero,one} Graph \<Rightarrow> bool" where
  lifetime_new: "lifetime \<lparr>this = a, nodes_f = [], calls = []\<rparr>"
| lifetime_add_function: "lifetime g \<Longrightarrow> leaves (add_function g fn as) g' \<Longrightarrow> lifetime g'"
| lifetime_forward: "lifetime g \<Longrightarrow> leaves (forward g n) g' \<Longrightarrow> lifetime g'"
| lifetime_backward: "lifetime g \<Longrightarrow> leaves (backward g n) g' \<Longrightarrow> lifetime g'"
| lifetime_get_value: "lifetime g \<Longrightarrow> leaves (get_value g n) g' \<Longrightarrow> lifetime g'"
| lifetime_get_gradient: "lifetime g \<Longrightarrow> leaves (get_gradient g n) g' \<Longrightarrow> lifetime g'"

text \<open>What \<open>add_function\<close> fixes of a graph for good: address, and per node shape, function, operands and sinks.\<close>

definition layout :: "'a Graph \<Rightarrow> nat \<times> (Shape \<times> 'a Function \<times> nat list \<times> nat list) list" where
  "layout g = (this g, map (\<lambda>n. (shape n, func n, args n, sinks n)) (nodes_f g))"

definition args_ok :: "'a Graph \<Rightarrow> bool" where
  "args_ok g = (\<forall>p < length (nodes_f g). \<forall>a \<in> set (args (nodes_f g ! p)). a < p)"

definition sinks_ok :: "'a Graph \<Rightarrow> bool" where
  "sinks_ok g = (\<forall>p < length (nodes_f g). \<forall>s \<in> set (sinks (nodes_f g ! p)). p < s)"

text \<open>A node with a value has operands with values; a node with a gradient has a value.\<close>

definition realized_ok :: "'a Graph \<Rightarrow> bool" where
  "realized_ok g = (\<forall>p < length (nodes_f g). valid (value' (nodes_f g ! p)) \<longrightarrow>
     (\<forall>a \<in> set (args (nodes_f g ! p)). valid (value' (nodes_f g ! a))))"

definition grads_ok :: "'a Graph \<Rightarrow> bool" where
  "grads_ok g = (\<forall>p < length (nodes_f g). valid (grad (nodes_f g ! p)) \<longrightarrow>
     valid (value' (nodes_f g ! p)))"

text \<open>The nodes whose \<open>Function::forward\<close> has been called, in the order of the calls.\<close>

fun fwd_ids :: "'a event list \<Rightarrow> nat list" where
  "fwd_ids [] = []"
| "fwd_ids (Forward_call i vals # es) = i # fwd_ids es"
| "fwd_ids (Constant_call i t # es) = fwd_ids es"
| "fwd_ids (Backward_call i ptrs vals grads # es) = fwd_ids es"

definition memo_ok :: "'a Graph \<Rightarrow> bool" where
  "memo_ok g = (distinct (fwd_ids (calls g)) \<and>
     (\<forall>p \<in> set (fwd_ids (calls g)). p < length (nodes_f g) \<and> valid (value' (nodes_f g ! p))))"

text \<open>
  What a run of \<open>forward_recursive\<close> changes: it calls \<open>Function::forward\<close> for nodes
  below \<open>b\<close> that had no value, once each, and gives them one; nothing else changes.
\<close>

definition fwd_rel :: "nat \<Rightarrow> 'a Graph \<Rightarrow> 'a Graph \<Rightarrow> bool" where
  "fwd_rel b g g' = (layout g' = layout g \<and>
     map grad (nodes_f g') = map grad (nodes_f g) \<and>
     (\<exists>new. calls g' = calls g @ new \<and> distinct (fwd_ids new) \<and>
        (\<forall>p \<in> set (fwd_ids new). p < b \<and> p < length (nodes_f g) \<and>
           \<not> valid (value' (nodes_f g ! p)) \<and> valid (value' (nodes_f g' ! p))) \<and>
        (\<forall>p < length (nodes_f g). p \<notin> set (fwd_ids new) \<longrightarrow>
           value' (nodes_f g' ! p) = value' (nodes_f g ! p))))"

text \<open>
  What the loops of \<open>backward\<close> change: gradients only; a gradient once there stays
  there, and a new one belongs to a node with a value.
\<close>

definition bwd_rel :: "'a Graph \<Rightarrow> 'a Graph \<Rightarrow> bool" where
  "bwd_rel g g' = (layout g' = layout g \<and>
     map value' (nodes_f g') = map value' (nodes_f g) \<and>
     fwd_ids (calls g') = fwd_ids (calls g) \<and>
     (\<forall>p < length (nodes_f g). valid (grad (nodes_f g ! p)) \<longrightarrow> valid (grad (nodes_f g' ! p))) \<and>
     (\<forall>p < length (nodes_f g). valid (grad (nodes_f g' ! p)) \<longrightarrow>
        valid (grad (nodes_f g ! p)) \<or> valid (value' (nodes_f g ! p))))"

text \<open>
  The spec's words for backward differentiation, as functions of their own (none of
  them uses the loops of \<open>Graph::backward\<close> above).

  "Seed the target node's gradient with an all-ones tensor matching its shape":
\<close>

definition seed_ones :: "'a::one Graph \<Rightarrow> nat \<Rightarrow> 'a Assigned \<Rightarrow> 'a Graph" where
  "seed_ones g t v =
     record_call (set_grad g t (Some (Device_constant (t_device v) (shape (nodes_f g ! t)) 1)))
       (Constant_call t (Device_constant (t_device v) (shape (nodes_f g ! t)) 1))"

text \<open>
  "Ensure the operand's gradient buffer exists (lazily initialized to all-zero, shaped
  like the operand)": a buffer that is there is kept as it is; one that is absent
  becomes the tensor of zeros on the device of the operand's value.
\<close>

definition ensure_exists :: "'a::zero Graph \<Rightarrow> nat \<Rightarrow> 'a Graph" where
  "ensure_exists g a =
     (case grad (nodes_f g ! a) of
        Some b \<Rightarrow> g
      | None \<Rightarrow>
          (case value' (nodes_f g ! a) of
             None \<Rightarrow> g
           | Some w \<Rightarrow>
               record_call
                 (set_grad g a (Some (Device_constant (t_device w) (shape (nodes_f g ! a)) 0)))
                 (Constant_call a (Device_constant (t_device w) (shape (nodes_f g ! a)) 0))))"

text \<open>
  "A node without a realized value is skipped; for every other visited node, for each of
  its operands, ensure the operand's gradient buffer exists and invoke the operation's
  backward step": the operands are taken in their order, and the step for operand
  number \<open>j\<close> is the call of \<open>Function::backward\<close> of the node with the operands up to
  this one.
\<close>

definition visit_node :: "'a::zero Graph \<Rightarrow> nat \<Rightarrow> 'a Graph" where
  "visit_node g p =
     (if valid (value' (nodes_f g ! p))
      then foldl (\<lambda>h j. call_backward (ensure_exists h (args (nodes_f g ! p) ! j)) p
                           (take (Suc j) (args (nodes_f g ! p)))
                           (take (Suc j) (args (nodes_f g ! p))))
             g [0..<length (args (nodes_f g ! p))]
      else g)"

text \<open>
  "Visit node positions in strictly decreasing order starting at the target's position
  down to the first position":
\<close>

definition sweep :: "'a::zero Graph \<Rightarrow> nat \<Rightarrow> 'a Graph" where
  "sweep g t = foldl visit_node g (rev [0..<Suc t])"

text \<open>
  A call of \<open>Function::backward\<close> made while node \<open>i\<close> is visited: it is for node \<open>i\<close>, and
  every gradient buffer handed to it is there.
\<close>

fun call_ok :: "nat \<Rightarrow> 'a event \<Rightarrow> bool" where
  "call_ok i (Forward_call j vals) = False"
| "call_ok i (Constant_call j t) = True"
| "call_ok i (Backward_call j ptrs vals grads) =
     (j = i \<and> ptrs \<noteq> [] \<and> length grads = length ptrs \<and> list_all valid grads)"

text \<open>
  The calls of \<open>Function::backward\<close> in a history: for each, the node and the operands
  whose buffers it was handed.
\<close>

fun bwd_calls :: "'a event list \<Rightarrow> (nat \<times> nat list) list" where
  "bwd_calls [] = []"
| "bwd_calls (Forward_call i vals # es) = bwd_calls es"
| "bwd_calls (Constant_call i t # es) = bwd_calls es"
| "bwd_calls (Backward_call i ptrs vals grads # es) = (i, ptrs) # bwd_calls es"

section \<open>Two operations and a small graph, to run the functions on\<close>

definition scalar_of :: "int \<Rightarrow> int Assigned" where
  "scalar_of x = \<lparr>t_device = 0, t_shape = Shape_scalar, t_data = [x]\<rparr>"

text \<open>An input: no operands, the value \<open>x\<close>; it has no gradient buffer to accumulate into.\<close>

definition input_fn :: "int \<Rightarrow> int Function" where
  "input_fn x =
     \<lparr>forward_shape = (\<lambda>shs. if shs = [] then Some Shape_scalar else None),
      f_forward = (\<lambda>vals. scalar_of x),
      f_backward = (\<lambda>v g vals i b. b)\<rparr>"

text \<open>
  The sum of scalars: the shape is scalar if every operand is, the value is the sum of
  the operand values, and the gradient of the result is added to every buffer.
\<close>

definition sum_fn :: "int Function" where
  "sum_fn =
     \<lparr>forward_shape = (\<lambda>shs. if list_all (\<lambda>s. has_same_dims s Shape_scalar) shs
                              then Some Shape_scalar else None),
      f_forward = (\<lambda>vals. scalar_of
         (sum_list (map (\<lambda>t. case t of None \<Rightarrow> 0 | Some a \<Rightarrow> sum_list (t_data a)) vals))),
      f_backward = (\<lambda>v g vals i b. case g of
           None \<Rightarrow> b
         | Some gt \<Rightarrow> b\<lparr>t_data := map2 (+) (t_data b) (t_data gt)\<rparr>)\<rparr>"

definition ex_node :: "int Function \<Rightarrow> int Tensor \<Rightarrow> int Tensor \<Rightarrow> nat list \<Rightarrow> nat list \<Rightarrow> int NodeInfo" where
  "ex_node fn v gr as ss =
     \<lparr>shape = Shape_scalar, func = fn, value' = v, grad = gr, args = as, sinks = ss\<rparr>"

text \<open>
  The graph at address 7 with the inputs \<open>x = 3\<close> and \<open>y = 4\<close> and their sum \<open>z\<close>: as
  built (\<open>ex_built\<close>), after \<open>forward(z)\<close> (\<open>ex_forwarded\<close>) and after \<open>backward(z)\<close>
  (\<open>ex_backwarded\<close>); and the handles of \<open>x\<close>, \<open>y\<close>, \<open>z\<close>.
\<close>

definition ex_new :: "int Graph" where
  "ex_new = \<lparr>this = 7, nodes_f = [], calls = []\<rparr>"

definition ex_x :: "int Graph" where
  "ex_x = \<lparr>this = 7, nodes_f = [ex_node (input_fn 3) None None [] []], calls = []\<rparr>"

definition ex_xy :: "int Graph" where
  "ex_xy = \<lparr>this = 7, nodes_f =
     [ex_node (input_fn 3) None None [] [], ex_node (input_fn 4) None None [] []], calls = []\<rparr>"

definition ex_built :: "int Graph" where
  "ex_built = \<lparr>this = 7, nodes_f =
     [ex_node (input_fn 3) None None [] [2], ex_node (input_fn 4) None None [] [2],
      ex_node sum_fn None None [0, 1] []], calls = []\<rparr>"

definition ex_forwarded :: "int Graph" where
  "ex_forwarded = \<lparr>this = 7, nodes_f =
     [ex_node (input_fn 3) (Some (scalar_of 3)) None [] [2],
      ex_node (input_fn 4) (Some (scalar_of 4)) None [] [2],
      ex_node sum_fn (Some (scalar_of 7)) None [0, 1] []],
     calls = [Forward_call 0 [], Forward_call 1 [],
              Forward_call 2 [Some (scalar_of 3), Some (scalar_of 4)]]\<rparr>"

definition ex_backwarded :: "int Graph" where
  "ex_backwarded = \<lparr>this = 7, nodes_f =
     [ex_node (input_fn 3) (Some (scalar_of 3)) (Some (scalar_of 2)) [] [2],
      ex_node (input_fn 4) (Some (scalar_of 4)) (Some (scalar_of 1)) [] [2],
      ex_node sum_fn (Some (scalar_of 7)) (Some (scalar_of 1)) [0, 1] []],
     calls = [Forward_call 0 [], Forward_call 1 [],
              Forward_call 2 [Some (scalar_of 3), Some (scalar_of 4)],
              Constant_call 2 (scalar_of 1),
              Constant_call 0 (scalar_of 0),
              Backward_call 2 [0] [Some (scalar_of 3)] [Some (scalar_of 0)],
              Constant_call 1 (scalar_of 0),
              Backward_call 2 [0, 1] [Some (scalar_of 3), Some (scalar_of 4)]
                [Some (scalar_of 1), Some (scalar_of 0)]]\<rparr>"

definition node_x :: Node where "node_x = \<lparr>g_f = 7, id_f = 0\<rparr>"

definition node_y :: Node where "node_y = \<lparr>g_f = 7, id_f = 1\<rparr>"

definition node_z :: Node where "node_z = \<lparr>g_f = 7, id_f = 2\<rparr>"

section \<open>Shape: batch compatibility and implicit unit axes\<close>

lemma depth_le_length: "unat (depth s) \<le> length (dims_f s)"
  unfolding depth_def by (simp add: unat_of_nat)

lemma extent_in_range: "i < depth s \<Longrightarrow> unat i < length (dims_f s)"
  using depth_le_length [of s] by (simp add: word_less_nat_alt)

text \<open>
  C8. \<open>a.has_compatible_batch(b)\<close> is true exactly when the batch sizes are equal or one
  of them is 1; and the extent at an axis \<open>i\<close> that is not below the stored depth is 1
  (both for the depth as the source compares it, and for the number of stored axes).
\<close>

theorem has_compatible_batch_iff_and_extent_beyond_depth:
  "(has_compatible_batch a b \<longleftrightarrow>
      batch_size a = batch_size b \<or> batch_size a = 1 \<or> batch_size b = 1)
   \<and> (depth s \<le> i \<longrightarrow> extent s i = 1)
   \<and> (length (dims_f s) \<le> unat i \<longrightarrow> extent s i = 1)"
proof -
  have "length (dims_f s) \<le> unat i \<Longrightarrow> \<not> i < depth s"
    using extent_in_range [of i s] by auto
  then show ?thesis
    by (auto simp: has_compatible_batch_def batch_size_def extent_def)
qed

theorem has_compatible_batch_iff_and_extent_beyond_depth_witness:
  "has_compatible_batch \<lparr>dims_f = [2, 3], k_f = 1, num_elms_per_sample_f = 6\<rparr>
       \<lparr>dims_f = [2, 3], k_f = 4, num_elms_per_sample_f = 6\<rparr>
   \<and> \<not> has_compatible_batch \<lparr>dims_f = [2, 3], k_f = 2, num_elms_per_sample_f = 6\<rparr>
       \<lparr>dims_f = [2, 3], k_f = 4, num_elms_per_sample_f = 6\<rparr>
   \<and> depth \<lparr>dims_f = [2, 3], k_f = 1, num_elms_per_sample_f = 6\<rparr> \<le> 2
   \<and> extent \<lparr>dims_f = [2, 3], k_f = 1, num_elms_per_sample_f = 6\<rparr> 2 = 1
   \<and> extent \<lparr>dims_f = [2, 3], k_f = 1, num_elms_per_sample_f = 6\<rparr> 1 = 3"
  using has_compatible_batch_iff_and_extent_beyond_depth
    [of "\<lparr>dims_f = [2, 3], k_f = 1, num_elms_per_sample_f = 6\<rparr>"
        "\<lparr>dims_f = [2, 3], k_f = 4, num_elms_per_sample_f = 6\<rparr>"
        "\<lparr>dims_f = [2, 3], k_f = 1, num_elms_per_sample_f = 6\<rparr>" 2]
  by (simp add: has_compatible_batch_def batch_size_def extent_def depth_def)

section \<open>Outcomes, handle checks and add_function\<close>

lemma bind_Returns_iff:
  "bind m k = Returns g r \<longleftrightarrow> (\<exists>g1 r1. m = Returns g1 r1 \<and> k g1 r1 = Returns g r)"
  by (cases m) auto

lemma bind_Throws_iff:
  "bind m k = Throws g e \<longleftrightarrow>
     m = Throws g e \<or> (\<exists>g1 r1. m = Returns g1 r1 \<and> k g1 r1 = Throws g e)"
  by (cases m) auto

lemma CHECK_NODE_Returns_iff:
  "CHECK_NODE g n = Returns g' u \<longleftrightarrow> g' = g \<and> g_f n = this g \<and> id_f n < length (nodes_f g)"
  by (auto simp: CHECK_NODE_def)

lemma CHECK_NODE_Throws_iff:
  "CHECK_NODE g n = Throws g' e \<longleftrightarrow> g' = g \<and> e = Graph_mismatched \<and> g_f n \<noteq> this g"
  by (auto simp: CHECK_NODE_def)

lemma CHECK_NODE_Aborts_iff:
  "CHECK_NODE g n = Aborts \<longleftrightarrow> g_f n = this g \<and> length (nodes_f g) \<le> id_f n"
  by (auto simp: CHECK_NODE_def)


lemma gather_passes:
  "list_all (passes g) pre \<Longrightarrow>
   gather g (pre @ rest) ids shs =
   gather g rest (ids @ map id_f pre) (shs @ map (\<lambda>n. shape (nodes_f g ! id_f n)) pre)"
  by (induction pre arbitrary: ids shs) (auto simp: passes_def CHECK_NODE_def)

lemma gather_Returns:
  "gather g as ids shs = Returns g' r \<Longrightarrow>
   g' = g \<and> list_all (passes g) as \<and>
   r = (ids @ map id_f as, shs @ map (\<lambda>n. shape (nodes_f g ! id_f n)) as)"
proof (induction as arbitrary: ids shs)
  case Nil
  then show ?case by simp
next
  case (Cons a as)
  from Cons.prems have a: "passes g a"
    and rest: "gather g as (ids @ [id_f a]) (shs @ [shape (nodes_f g ! id_f a)]) = Returns g' r"
    by (auto simp: bind_Returns_iff CHECK_NODE_Returns_iff passes_def)
  from Cons.IH [OF rest] a show ?case by simp
qed

lemma gather_Throws:
  "gather g as ids shs = Throws g' e \<Longrightarrow> g' = g \<and> e = Graph_mismatched"
  by (induction as arbitrary: ids shs)
     (auto simp: bind_Throws_iff CHECK_NODE_Returns_iff CHECK_NODE_Throws_iff)

lemma gather_all_pass:
  "list_all (passes g) as \<Longrightarrow>
   gather g as [] [] = Returns g (map id_f as, map (\<lambda>n. shape (nodes_f g ! id_f n)) as)"
  using gather_passes [of g as "[]" "[]" "[]"] by simp

lemma gather_first_foreign:
  "list_all (passes g) pre \<Longrightarrow> g_f n \<noteq> this g \<Longrightarrow>
   gather g (pre @ n # post) [] [] = Throws g Graph_mismatched"
  by (simp add: gather_passes CHECK_NODE_def)

lemma gather_first_out_of_range:
  "list_all (passes g) pre \<Longrightarrow> g_f n = this g \<Longrightarrow> length (nodes_f g) \<le> id_f n \<Longrightarrow>
   gather g (pre @ n # post) [] [] = Aborts"
  by (simp add: gather_passes CHECK_NODE_def)

lemma length_add_sinks [simp]: "length (add_sinks r ids ns) = length ns"
  by (induction ids arbitrary: ns) auto

lemma map_update_same: "f y = f (xs ! k) \<Longrightarrow> map f (xs[k := y]) = map f xs"
  by (simp add: map_update list_update_same_conv) (metis list_update_beyond list_update_id map_update not_le_imp_less nth_map length_map)

lemma add_sinks_args [simp]: "map args (add_sinks r ids ns) = map args ns"
  by (induction ids arbitrary: ns) (auto simp: map_update_same)

lemma add_sinks_value [simp]: "map value' (add_sinks r ids ns) = map value' ns"
  by (induction ids arbitrary: ns) (auto simp: map_update_same)

lemma add_sinks_grad [simp]: "map grad (add_sinks r ids ns) = map grad ns"
  by (induction ids arbitrary: ns) (auto simp: map_update_same)

lemma add_sinks_shape [simp]: "map shape (add_sinks r ids ns) = map shape ns"
  by (induction ids arbitrary: ns) (auto simp: map_update_same)

lemma add_sinks_func [simp]: "map func (add_sinks r ids ns) = map func ns"
  by (induction ids arbitrary: ns) (auto simp: map_update_same)

lemma add_sinks_sinks:
  "p < length ns \<Longrightarrow> set (sinks (add_sinks r ids ns ! p)) \<subseteq> insert r (set (sinks (ns ! p)))"
proof (induction ids arbitrary: ns)
  case Nil
  then show ?case by auto
next
  case (Cons a ids)
  let ?ns = "ns[a := (ns ! a)\<lparr>sinks := sinks (ns ! a) @ [r]\<rparr>]"
  have "set (sinks (add_sinks r ids ?ns ! p)) \<subseteq> insert r (set (sinks (?ns ! p)))"
    using Cons.IH [of ?ns] Cons.prems by simp
  moreover have "set (sinks (?ns ! p)) \<subseteq> insert r (set (sinks (ns ! p)))"
    using Cons.prems by (cases "a = p") auto
  ultimately show ?case by auto
qed

lemma add_sinks_sinks_other:
  "p < length ns \<Longrightarrow> p \<notin> set ids \<Longrightarrow> sinks (add_sinks r ids ns ! p) = sinks (ns ! p)"
  by (induction ids arbitrary: ns) (auto simp: nth_list_update)

lemma add_function_Returns:
  "add_function g fn as = Returns g' n \<Longrightarrow>
   list_all (passes g) as \<and>
   (\<exists>s. forward_shape fn (map (\<lambda>n. shape (nodes_f g ! id_f n)) as) = Some s \<and>
     g' = g\<lparr>nodes_f := add_sinks (length (nodes_f g)) (map id_f as) (nodes_f g) @
             [\<lparr>shape = s, func = fn, value' = None, grad = None, args = map id_f as, sinks = []\<rparr>]\<rparr>) \<and>
   n = \<lparr>g_f = this g, id_f = length (nodes_f g)\<rparr>"
  unfolding add_function_def
  by (auto simp: bind_Returns_iff Let_def dest!: gather_Returns split: option.splits)

lemma add_function_Throws:
  "add_function g fn as = Throws g' e \<Longrightarrow> g' = g \<and> (e = Graph_mismatched \<or> e = Shape_mismatch)"
  unfolding add_function_def
  by (auto simp: bind_Throws_iff Let_def dest!: gather_Returns gather_Throws split: option.splits)

section \<open>What a run of forward changes\<close>

lemma fwd_ids_append [simp]: "fwd_ids (xs @ ys) = fwd_ids xs @ fwd_ids ys"
  by (induction xs rule: fwd_ids.induct) auto

lemma layout_length: "layout g' = layout g \<Longrightarrow> length (nodes_f g') = length (nodes_f g)"
  unfolding layout_def by (auto dest: map_eq_imp_length_eq)

lemma map_nth_eq: "map f xs = map f ys \<Longrightarrow> p < length ys \<Longrightarrow> f (xs ! p) = f (ys ! p)"
  by (metis length_map nth_map)

lemma layout_nth:
  assumes "layout g' = layout g" "p < length (nodes_f g)"
  shows "shape (nodes_f g' ! p) = shape (nodes_f g ! p) \<and> func (nodes_f g' ! p) = func (nodes_f g ! p)
    \<and> args (nodes_f g' ! p) = args (nodes_f g ! p) \<and> sinks (nodes_f g' ! p) = sinks (nodes_f g ! p)"
proof -
  have "map (\<lambda>n. (shape n, func n, args n, sinks n)) (nodes_f g')
      = map (\<lambda>n. (shape n, func n, args n, sinks n)) (nodes_f g)"
    using assms(1) unfolding layout_def by simp
  from map_nth_eq [OF this assms(2)] show ?thesis by simp
qed

lemma layout_args: "layout g' = layout g \<Longrightarrow> p < length (nodes_f g) \<Longrightarrow>
   args (nodes_f g' ! p) = args (nodes_f g ! p)"
  using layout_nth [of g' g p] by simp

lemma layout_sinks: "layout g' = layout g \<Longrightarrow> p < length (nodes_f g) \<Longrightarrow>
   sinks (nodes_f g' ! p) = sinks (nodes_f g ! p)"
  using layout_nth [of g' g p] by simp

lemma layout_shape: "layout g' = layout g \<Longrightarrow> p < length (nodes_f g) \<Longrightarrow>
   shape (nodes_f g' ! p) = shape (nodes_f g ! p)"
  using layout_nth [of g' g p] by simp

lemma layout_func: "layout g' = layout g \<Longrightarrow> p < length (nodes_f g) \<Longrightarrow>
   func (nodes_f g' ! p) = func (nodes_f g ! p)"
  using layout_nth [of g' g p] by simp

lemma layout_this: "layout g' = layout g \<Longrightarrow> this g' = this g"
  unfolding layout_def by simp

lemma args_ok_layout:
  assumes "layout g' = layout g" "args_ok g"
  shows "args_ok g'"
  using assms(2) layout_length [OF assms(1)] layout_args [OF assms(1)]
  unfolding args_ok_def by simp

lemma sinks_ok_layout:
  assumes "layout g' = layout g" "sinks_ok g"
  shows "sinks_ok g'"
  using assms(2) layout_length [OF assms(1)] layout_sinks [OF assms(1)]
  unfolding sinks_ok_def by simp

lemma layout_set_value [simp]: "layout (set_value g i t) = layout g"
  unfolding layout_def set_value_def by (simp add: map_update_same)

lemma layout_set_grad [simp]: "layout (set_grad g i t) = layout g"
  unfolding layout_def set_grad_def by (simp add: map_update_same)

lemma layout_record_call [simp]: "layout (record_call g ev) = layout g"
  unfolding layout_def record_call_def by simp

lemma nodes_record_call [simp]: "nodes_f (record_call g ev) = nodes_f g"
  unfolding record_call_def by simp

lemma calls_record_call [simp]: "calls (record_call g ev) = calls g @ [ev]"
  unfolding record_call_def by simp

lemma calls_set_value [simp]: "calls (set_value g i t) = calls g"
  unfolding set_value_def by simp

lemma calls_set_grad [simp]: "calls (set_grad g i t) = calls g"
  unfolding set_grad_def by simp

lemma length_set_value [simp]: "length (nodes_f (set_value g i t)) = length (nodes_f g)"
  unfolding set_value_def by simp

lemma length_set_grad [simp]: "length (nodes_f (set_grad g i t)) = length (nodes_f g)"
  unfolding set_grad_def by simp

lemma grad_set_value [simp]: "map grad (nodes_f (set_value g i t)) = map grad (nodes_f g)"
  unfolding set_value_def by (simp add: map_update_same)

lemma value_set_grad [simp]: "map value' (nodes_f (set_grad g i t)) = map value' (nodes_f g)"
  unfolding set_grad_def by (simp add: map_update_same)

lemma value_set_value: "i < length (nodes_f g) \<Longrightarrow>
   value' (nodes_f (set_value g i t) ! p) = (if p = i then t else value' (nodes_f g ! p))"
  unfolding set_value_def by (simp add: nth_list_update)

lemma grad_set_grad: "i < length (nodes_f g) \<Longrightarrow>
   grad (nodes_f (set_grad g i t) ! p) = (if p = i then t else grad (nodes_f g ! p))"
  unfolding set_grad_def by (simp add: nth_list_update)

lemma fwd_relI:
  assumes "layout g' = layout g" "map grad (nodes_f g') = map grad (nodes_f g)"
    and "calls g' = calls g @ new" "distinct (fwd_ids new)"
    and "\<forall>p \<in> set (fwd_ids new). p < b \<and> p < length (nodes_f g) \<and>
           \<not> valid (value' (nodes_f g ! p)) \<and> valid (value' (nodes_f g' ! p))"
    and "\<forall>p < length (nodes_f g). p \<notin> set (fwd_ids new) \<longrightarrow>
           value' (nodes_f g' ! p) = value' (nodes_f g ! p)"
  shows "fwd_rel b g g'"
  unfolding fwd_rel_def using assms by blast

lemma fwd_relD:
  assumes "fwd_rel b g g'"
  shows "\<exists>new. layout g' = layout g \<and> map grad (nodes_f g') = map grad (nodes_f g)
    \<and> calls g' = calls g @ new \<and> distinct (fwd_ids new)
    \<and> (\<forall>p \<in> set (fwd_ids new). p < b \<and> p < length (nodes_f g) \<and>
           \<not> valid (value' (nodes_f g ! p)) \<and> valid (value' (nodes_f g' ! p)))
    \<and> (\<forall>p < length (nodes_f g). p \<notin> set (fwd_ids new) \<longrightarrow>
           value' (nodes_f g' ! p) = value' (nodes_f g ! p))"
  using assms unfolding fwd_rel_def by simp

lemma fwd_rel_refl: "fwd_rel b g g"
  by (rule fwd_relI [where new = "[]"]) simp_all

lemma fwd_rel_mono:
  assumes "fwd_rel b g g'" "b \<le> c"
  shows "fwd_rel c g g'"
proof -
  from fwd_relD [OF assms(1)] obtain new where l: "layout g' = layout g"
    and gr: "map grad (nodes_f g') = map grad (nodes_f g)"
    and c: "calls g' = calls g @ new" and d: "distinct (fwd_ids new)"
    and n: "\<forall>p \<in> set (fwd_ids new). p < b \<and> p < length (nodes_f g) \<and>
           \<not> valid (value' (nodes_f g ! p)) \<and> valid (value' (nodes_f g' ! p))"
    and o: "\<forall>p < length (nodes_f g). p \<notin> set (fwd_ids new) \<longrightarrow>
           value' (nodes_f g' ! p) = value' (nodes_f g ! p)"
    by blast
  from n assms(2) have "\<forall>p \<in> set (fwd_ids new). p < c \<and> p < length (nodes_f g) \<and>
           \<not> valid (value' (nodes_f g ! p)) \<and> valid (value' (nodes_f g' ! p))"
    by auto
  from l gr c d this o show ?thesis by (rule fwd_relI)
qed

lemma fwd_rel_layout: "fwd_rel b g g' \<Longrightarrow> layout g' = layout g"
  unfolding fwd_rel_def by simp

lemma fwd_rel_length: "fwd_rel b g g' \<Longrightarrow> length (nodes_f g') = length (nodes_f g)"
  by (rule layout_length) (rule fwd_rel_layout)

lemma fwd_rel_grad: "fwd_rel b g g' \<Longrightarrow> map grad (nodes_f g') = map grad (nodes_f g)"
  unfolding fwd_rel_def by simp

lemma fwd_rel_calls: "fwd_rel b g g' \<Longrightarrow> \<exists>new. calls g' = calls g @ new"
  unfolding fwd_rel_def by blast

lemma fwd_rel_valid:
  assumes "fwd_rel b g g'" "p < length (nodes_f g)" "valid (value' (nodes_f g ! p))"
  shows "value' (nodes_f g' ! p) = value' (nodes_f g ! p)"
proof -
  from fwd_relD [OF assms(1)] obtain new where c: "calls g' = calls g @ new"
    and n: "\<forall>p \<in> set (fwd_ids new). p < b \<and> p < length (nodes_f g) \<and>
           \<not> valid (value' (nodes_f g ! p)) \<and> valid (value' (nodes_f g' ! p))"
    and o: "\<forall>p < length (nodes_f g). p \<notin> set (fwd_ids new) \<longrightarrow>
           value' (nodes_f g' ! p) = value' (nodes_f g ! p)"
    by blast
  from n assms(3) have "p \<notin> set (fwd_ids new)" by blast
  with o assms(2) show ?thesis by blast
qed

lemma fwd_rel_above:
  assumes "fwd_rel b g g'" "p < length (nodes_f g)" "b \<le> p"
  shows "value' (nodes_f g' ! p) = value' (nodes_f g ! p)"
proof -
  from fwd_relD [OF assms(1)] obtain new where c: "calls g' = calls g @ new"
    and n: "\<forall>p \<in> set (fwd_ids new). p < b \<and> p < length (nodes_f g) \<and>
           \<not> valid (value' (nodes_f g ! p)) \<and> valid (value' (nodes_f g' ! p))"
    and o: "\<forall>p < length (nodes_f g). p \<notin> set (fwd_ids new) \<longrightarrow>
           value' (nodes_f g' ! p) = value' (nodes_f g ! p)"
    by blast
  from n assms(3) have "p \<notin> set (fwd_ids new)" by auto
  with o assms(2) show ?thesis by blast
qed

lemma fwd_rel_trans:
  assumes "fwd_rel b g g1" "fwd_rel b g1 g2"
  shows "fwd_rel b g g2"
proof -
  from fwd_relD [OF assms(1)] obtain new1 where l1: "layout g1 = layout g"
    and gr1: "map grad (nodes_f g1) = map grad (nodes_f g)"
    and c1: "calls g1 = calls g @ new1" and d1: "distinct (fwd_ids new1)"
    and n1: "\<forall>p \<in> set (fwd_ids new1). p < b \<and> p < length (nodes_f g) \<and>
           \<not> valid (value' (nodes_f g ! p)) \<and> valid (value' (nodes_f g1 ! p))"
    and o1: "\<forall>p < length (nodes_f g). p \<notin> set (fwd_ids new1) \<longrightarrow>
           value' (nodes_f g1 ! p) = value' (nodes_f g ! p)"
    by blast
  from fwd_relD [OF assms(2)] obtain new2 where l2: "layout g2 = layout g1"
    and gr2: "map grad (nodes_f g2) = map grad (nodes_f g1)"
    and c2: "calls g2 = calls g1 @ new2" and d2: "distinct (fwd_ids new2)"
    and n2: "\<forall>p \<in> set (fwd_ids new2). p < b \<and> p < length (nodes_f g1) \<and>
           \<not> valid (value' (nodes_f g1 ! p)) \<and> valid (value' (nodes_f g2 ! p))"
    and o2: "\<forall>p < length (nodes_f g1). p \<notin> set (fwd_ids new2) \<longrightarrow>
           value' (nodes_f g2 ! p) = value' (nodes_f g1 ! p)"
    by blast
  have len: "length (nodes_f g1) = length (nodes_f g)" using l1 by (rule layout_length)
  have disj: "set (fwd_ids new1) \<inter> set (fwd_ids new2) = {}"
    using n1 n2 by blast
  show ?thesis
  proof (rule fwd_relI [where new = "new1 @ new2"])
    show "layout g2 = layout g" using l1 l2 by simp
    show "map grad (nodes_f g2) = map grad (nodes_f g)" using gr1 gr2 by simp
    show "calls g2 = calls g @ new1 @ new2" using c1 c2 by simp
    show "distinct (fwd_ids (new1 @ new2))" using d1 d2 disj by simp
    show "\<forall>p \<in> set (fwd_ids (new1 @ new2)). p < b \<and> p < length (nodes_f g) \<and>
           \<not> valid (value' (nodes_f g ! p)) \<and> valid (value' (nodes_f g2 ! p))"
    proof
      fix p assume "p \<in> set (fwd_ids (new1 @ new2))"
      then consider "p \<in> set (fwd_ids new1)" | "p \<in> set (fwd_ids new2)" by auto
      then show "p < b \<and> p < length (nodes_f g) \<and>
           \<not> valid (value' (nodes_f g ! p)) \<and> valid (value' (nodes_f g2 ! p))"
      proof cases
        case 1
        then have "p \<notin> set (fwd_ids new2)" using disj by blast
        with 1 n1 o2 len show ?thesis by auto
      next
        case 2
        then have "p \<notin> set (fwd_ids new1)" using disj by blast
        with 2 n2 o1 len show ?thesis by auto
      qed
    qed
    show "\<forall>p < length (nodes_f g). p \<notin> set (fwd_ids (new1 @ new2)) \<longrightarrow>
           value' (nodes_f g2 ! p) = value' (nodes_f g ! p)"
      using o1 o2 len by simp
  qed
qed

lemma fwd_rel_step:
  assumes "i < length (nodes_f g)" "\<not> valid (value' (nodes_f g ! i))"
  shows "fwd_rel (Suc i) g (record_call (set_value g i (Some v)) (Forward_call i vals))"
  by (rule fwd_relI [where new = "[Forward_call i vals]"])
     (use assms in \<open>auto simp: value_set_value valid_def\<close>)

section \<open>The recursion of forward\<close>

lemma fwd_rel_args_ok: "fwd_rel b g g' \<Longrightarrow> args_ok g \<Longrightarrow> args_ok g'"
  using args_ok_layout fwd_rel_layout by blast

lemma realized_ok_set_value:
  assumes "realized_ok g" "i < length (nodes_f g)"
    and "\<forall>a \<in> set (args (nodes_f g ! i)). valid (value' (nodes_f g ! a))"
  shows "realized_ok (record_call (set_value g i (Some v)) ev)"
  unfolding realized_ok_def
proof (intro allI impI ballI)
  fix p a
  let ?g = "record_call (set_value g i (Some v)) ev"
  assume p: "p < length (nodes_f ?g)" and vp: "valid (value' (nodes_f ?g ! p))"
    and a: "a \<in> set (args (nodes_f ?g ! p))"
  have lay: "layout ?g = layout g" by simp
  from p have p': "p < length (nodes_f g)" by simp
  from a layout_args [OF lay p'] have a': "a \<in> set (args (nodes_f g ! p))" by simp
  have "valid (value' (nodes_f g ! a))"
  proof (cases "p = i")
    case True
    with a' assms(3) show ?thesis by simp
  next
    case False
    with vp assms(2) have "valid (value' (nodes_f g ! p))" by (simp add: value_set_value)
    with assms(1) p' a' show ?thesis unfolding realized_ok_def by blast
  qed
  with assms(2) show "valid (value' (nodes_f ?g ! a))"
    by (simp add: value_set_value valid_def)
qed

lemma forward_args_rel:
  assumes IH: "\<And>g a g' u. args_ok g \<Longrightarrow> realized_ok g \<Longrightarrow> recur g a = Returns g' u \<Longrightarrow>
      fwd_rel (Suc a) g g' \<and> valid (value' (nodes_f g' ! a)) \<and> a < length (nodes_f g) \<and> realized_ok g'"
  shows "args_ok g \<Longrightarrow> realized_ok g \<Longrightarrow> \<forall>a \<in> set as. a < b \<Longrightarrow>
     forward_args recur g as ptrs = Returns g' ptrs' \<Longrightarrow>
     fwd_rel b g g' \<and> realized_ok g' \<and> ptrs' = ptrs @ as \<and>
     (\<forall>a \<in> set as. a < length (nodes_f g) \<and> valid (value' (nodes_f g' ! a)))"
proof (induction as arbitrary: g ptrs)
  case Nil
  then show ?case by (simp add: fwd_rel_refl)
next
  case (Cons a as)
  from Cons.prems(4) obtain g1 u where r1: "recur g a = Returns g1 u"
    and r2: "forward_args recur g1 as (ptrs @ [a]) = Returns g' ptrs'"
    by (auto simp: bind_Returns_iff)
  from IH [OF Cons.prems(1,2) r1] have s1: "fwd_rel (Suc a) g g1"
    and v1: "valid (value' (nodes_f g1 ! a))" and a: "a < length (nodes_f g)"
    and ok1: "realized_ok g1" by simp_all
  from Cons.prems(3) have "Suc a \<le> b" by simp
  with s1 have s1b: "fwd_rel b g g1" by (rule fwd_rel_mono)
  have len1: "length (nodes_f g1) = length (nodes_f g)" using s1 by (rule fwd_rel_length)
  from Cons.prems(3) have rest: "\<forall>a \<in> set as. a < b" by simp
  from Cons.IH [OF fwd_rel_args_ok [OF s1 Cons.prems(1)] ok1 rest r2]
  have s2: "fwd_rel b g1 g'" and ok2: "realized_ok g'" and p: "ptrs' = (ptrs @ [a]) @ as"
    and v2: "\<forall>a \<in> set as. a < length (nodes_f g1) \<and> valid (value' (nodes_f g' ! a))"
    by simp_all
  from fwd_rel_valid [OF s2 _ v1] a len1 v1 have "valid (value' (nodes_f g' ! a))" by simp
  with fwd_rel_trans [OF s1b s2] ok2 p v2 a len1 show ?case by simp
qed

lemma forward_recursive_rel:
  "args_ok g \<Longrightarrow> realized_ok g \<Longrightarrow> forward_recursive k g i = Returns g' u \<Longrightarrow>
   fwd_rel (Suc i) g g' \<and> valid (value' (nodes_f g' ! i)) \<and> i < length (nodes_f g) \<and> realized_ok g'"
proof (induction k arbitrary: g i g' u)
  case 0
  then show ?case by simp
next
  case (Suc k)
  from Suc.prems(3) have i: "i < length (nodes_f g)" by (auto split: if_splits)
  show ?case
  proof (cases "valid (value' (nodes_f g ! i))")
    case True
    with Suc.prems(3) i have "g' = g" by simp
    with True i Suc.prems(2) show ?thesis by (simp add: fwd_rel_refl)
  next
    case False
    with Suc.prems(3) i obtain g1 ptrs where
      loop: "forward_args (forward_recursive k) g (args (nodes_f g ! i)) [] = Returns g1 ptrs"
      and g': "g' = record_call (set_value g1 i
                 (Some (f_forward (func (nodes_f g1 ! i)) (map (\<lambda>p. value' (nodes_f g1 ! p)) ptrs))))
                 (Forward_call i (map (\<lambda>p. value' (nodes_f g1 ! p)) ptrs))"
      by (auto simp: bind_Returns_iff Let_def)
    from Suc.prems(1) i have below: "\<forall>a \<in> set (args (nodes_f g ! i)). a < i"
      unfolding args_ok_def by simp
    from forward_args_rel [of "forward_recursive k", OF Suc.IH Suc.prems(1,2) below loop]
    have s1: "fwd_rel i g g1" and ok1: "realized_ok g1"
      and v1: "\<forall>a \<in> set (args (nodes_f g ! i)). a < length (nodes_f g) \<and> valid (value' (nodes_f g1 ! a))"
      by simp_all
    have len1: "length (nodes_f g1) = length (nodes_f g)" using s1 by (rule fwd_rel_length)
    have lay1: "layout g1 = layout g" using s1 by (rule fwd_rel_layout)
    from fwd_rel_above [OF s1 i] False have inv1: "\<not> valid (value' (nodes_f g1 ! i))" by simp
    from i len1 have i1: "i < length (nodes_f g1)" by simp
    from fwd_rel_step [OF i1 inv1] g' have s2: "fwd_rel (Suc i) g1 g'" by simp
    from fwd_rel_mono [OF s1, of "Suc i"] have "fwd_rel (Suc i) g g1" by simp
    from this s2 have "fwd_rel (Suc i) g g'" by (rule fwd_rel_trans)
    moreover from g' i1 have "valid (value' (nodes_f g' ! i))"
      by (simp add: value_set_value valid_def)
    moreover from v1 layout_args [OF lay1 i]
    have "\<forall>a \<in> set (args (nodes_f g1 ! i)). valid (value' (nodes_f g1 ! a))" by simp
    with ok1 i1 g' have "realized_ok g'" by (simp add: realized_ok_set_value)
    ultimately show ?thesis using i by simp
  qed
qed

lemma forward_args_no_throw:
  assumes "\<And>g a g' e. recur g a \<noteq> Throws g' e"
  shows "forward_args recur g as ptrs \<noteq> Throws g' e"
  using assms by (induction as arbitrary: g ptrs) (auto simp: bind_Throws_iff)

lemma forward_recursive_no_throw: "forward_recursive k (g::'a Graph) i \<noteq> Throws g' e"
proof (induction k arbitrary: g i g' e)
  case 0
  show ?case by simp
next
  case (Suc k)
  have "forward_args (forward_recursive k) g as ptrs \<noteq> Throws g' e"
    for g :: "'a Graph" and as ptrs g' e
    using forward_args_no_throw [of "forward_recursive k", OF Suc.IH] by blast
  then show ?case by (auto simp: bind_Throws_iff Let_def)
qed

lemma forward_args_returns:
  assumes IH: "\<And>(g::'a Graph) a. args_ok g \<Longrightarrow> realized_ok g \<Longrightarrow> a < length (nodes_f g) \<Longrightarrow> a < k \<Longrightarrow>
      \<exists>g'. forward_recursive k g a = Returns g' ()"
  shows "args_ok (g::'a Graph) \<Longrightarrow> realized_ok g \<Longrightarrow> \<forall>a \<in> set as. a < k \<and> a < length (nodes_f g) \<Longrightarrow>
     \<exists>g' ptrs'. forward_args (forward_recursive k) g as ptrs = Returns g' ptrs'"
proof (induction as arbitrary: g ptrs)
  case Nil
  show ?case by simp
next
  case (Cons a as)
  from IH [OF Cons.prems(1,2)] Cons.prems(3) obtain g1 where
    r1: "forward_recursive k g a = Returns g1 ()" by auto
  from forward_recursive_rel [OF Cons.prems(1,2) r1]
  have s1: "fwd_rel (Suc a) g g1" and ok1: "realized_ok g1" by simp_all
  have len1: "length (nodes_f g1) = length (nodes_f g)" using s1 by (rule fwd_rel_length)
  from Cons.prems(3) len1 have "\<forall>a \<in> set as. a < k \<and> a < length (nodes_f g1)" by simp
  from Cons.IH [OF fwd_rel_args_ok [OF s1 Cons.prems(1)] ok1 this, of "ptrs @ [a]"] r1
  show ?case by simp
qed

lemma forward_recursive_returns:
  "args_ok g \<Longrightarrow> realized_ok g \<Longrightarrow> i < length (nodes_f g) \<Longrightarrow> i < k \<Longrightarrow>
   \<exists>g'. forward_recursive k g i = Returns g' ()"
proof (induction k arbitrary: g i)
  case 0
  then show ?case by simp
next
  case (Suc k)
  from Suc.prems(1,3) have "\<forall>a \<in> set (args (nodes_f g ! i)). a < i"
    unfolding args_ok_def by simp
  with Suc.prems(3,4) have "\<forall>a \<in> set (args (nodes_f g ! i)). a < k \<and> a < length (nodes_f g)"
    by auto
  from forward_args_returns [of k, OF Suc.IH Suc.prems(1,2) this, of "[]"]
  obtain g1 ptrs where "forward_args (forward_recursive k) g (args (nodes_f g ! i)) [] = Returns g1 ptrs"
    by blast
  with Suc.prems(3) show ?case by (simp add: Let_def)
qed

section \<open>The loops of backward\<close>

lemma length_accumulate [simp]: "length (accumulate upd i ps ns) = length ns"
  by (induction ps arbitrary: i ns) auto

lemma map_accumulate:
  assumes "\<And>n u. f (n\<lparr>grad := map_option u (grad n)\<rparr>) = f n"
  shows "map f (accumulate upd i ps ns) = map f ns"
  by (induction ps arbitrary: i ns) (auto simp: map_update_same assms)

lemma layout_call_backward [simp]: "layout (call_backward g i avs ags) = layout g"
  unfolding layout_def call_backward_def by (simp add: Let_def record_call_def map_accumulate)

lemma value_call_backward [simp]:
  "map value' (nodes_f (call_backward g i avs ags)) = map value' (nodes_f g)"
  unfolding call_backward_def by (simp add: Let_def map_accumulate)

lemma valid_grad_call_backward [simp]:
  "map (\<lambda>n. valid (grad n)) (nodes_f (call_backward g i avs ags)) = map (\<lambda>n. valid (grad n)) (nodes_f g)"
  unfolding call_backward_def by (simp add: Let_def map_accumulate valid_def)

lemma length_call_backward [simp]:
  "length (nodes_f (call_backward g i avs ags)) = length (nodes_f g)"
  unfolding call_backward_def by (simp add: Let_def)

lemma calls_call_backward:
  "calls (call_backward g i avs ags) = calls g @
     [Backward_call i ags (map (\<lambda>p. value' (nodes_f g ! p)) avs) (map (\<lambda>p. grad (nodes_f g ! p)) ags)]"
  unfolding call_backward_def by (simp add: Let_def)

lemma bwd_rel_refl: "bwd_rel g g"
  unfolding bwd_rel_def by simp

lemma bwd_rel_layout: "bwd_rel g g' \<Longrightarrow> layout g' = layout g"
  unfolding bwd_rel_def by simp

lemma bwd_rel_length: "bwd_rel g g' \<Longrightarrow> length (nodes_f g') = length (nodes_f g)"
  by (rule layout_length) (rule bwd_rel_layout)

lemma bwd_rel_value: "bwd_rel g g' \<Longrightarrow> map value' (nodes_f g') = map value' (nodes_f g)"
  unfolding bwd_rel_def by simp

lemma bwd_rel_value_nth: "bwd_rel g g' \<Longrightarrow> p < length (nodes_f g) \<Longrightarrow>
   value' (nodes_f g' ! p) = value' (nodes_f g ! p)"
  using map_nth_eq [OF bwd_rel_value] by blast

lemma bwd_rel_grad_valid: "bwd_rel g g' \<Longrightarrow> p < length (nodes_f g) \<Longrightarrow>
   valid (grad (nodes_f g ! p)) \<Longrightarrow> valid (grad (nodes_f g' ! p))"
  unfolding bwd_rel_def by simp

lemma bwd_rel_trans:
  assumes "bwd_rel g g1" "bwd_rel g1 g2"
  shows "bwd_rel g g2"
proof -
  have len: "length (nodes_f g1) = length (nodes_f g)" using assms(1) by (rule bwd_rel_length)
  have v: "\<And>p. p < length (nodes_f g) \<Longrightarrow> value' (nodes_f g1 ! p) = value' (nodes_f g ! p)"
    using assms(1) by (rule bwd_rel_value_nth)
  show ?thesis
    using assms len v unfolding bwd_rel_def by auto
qed

lemma bwd_rel_call_backward: "bwd_rel g (call_backward g i avs ags)"
proof -
  have "\<And>p. p < length (nodes_f g) \<Longrightarrow>
      valid (grad (nodes_f (call_backward g i avs ags) ! p)) = valid (grad (nodes_f g ! p))"
    using map_nth_eq [OF valid_grad_call_backward] by blast
  then show ?thesis
    unfolding bwd_rel_def by (simp add: calls_call_backward)
qed

lemma bwd_rel_set_grad:
  assumes "i < length (nodes_f g)" "valid (value' (nodes_f g ! i))"
  shows "bwd_rel g (record_call (set_grad g i (Some t)) (Constant_call i t))"
  unfolding bwd_rel_def using assms by (simp add: grad_set_grad valid_def)

lemma ensure_grad_Returns:
  assumes "ensure_grad g a = Returns g' u"
  shows "(valid (grad (nodes_f g ! a)) \<and> g' = g) \<or>
         (\<not> valid (grad (nodes_f g ! a)) \<and> (\<exists>v. value' (nodes_f g ! a) = Some v \<and>
            g' = record_call (set_grad g a (Some (Device_constant (t_device v) (shape (nodes_f g ! a)) 0)))
                   (Constant_call a (Device_constant (t_device v) (shape (nodes_f g ! a)) 0))))"
  using assms unfolding ensure_grad_def by (auto simp: Let_def split: if_splits option.splits)

lemma ensure_grad_no_throw: "ensure_grad g a \<noteq> Throws g' e"
  unfolding ensure_grad_def by (auto simp: Let_def split: option.splits)

lemma ensure_grad_returns:
  "valid (value' (nodes_f g ! a)) \<Longrightarrow> \<exists>g'. ensure_grad g a = Returns g' ()"
  unfolding ensure_grad_def by (auto simp: Let_def valid_def split: option.splits)

lemma ensure_grad_rel:
  assumes "ensure_grad g a = Returns g' u" "a < length (nodes_f g)"
  shows "bwd_rel g g' \<and> valid (grad (nodes_f g' ! a))"
  using ensure_grad_Returns [OF assms(1)] assms(2)
  by (auto simp: bwd_rel_refl bwd_rel_set_grad valid_def grad_set_grad)

lemma backward_args_rel:
  "backward_args g i as avs ags = Returns g' u \<Longrightarrow> bwd_rel g g'"
proof (induction as arbitrary: g avs ags)
  case Nil
  then show ?case by (simp add: bwd_rel_refl)
next
  case (Cons a as)
  from Cons.prems obtain g1 u1 where a: "a < length (nodes_f g)"
    and e: "ensure_grad g a = Returns g1 u1"
    and r: "backward_args (call_backward g1 i (avs @ [a]) (ags @ [a])) i as (avs @ [a]) (ags @ [a]) = Returns g' u"
    by (auto simp: bind_Returns_iff split: if_splits)
  from ensure_grad_rel [OF e a] have "bwd_rel g g1" by simp
  from this bwd_rel_call_backward have "bwd_rel g (call_backward g1 i (avs @ [a]) (ags @ [a]))"
    by (rule bwd_rel_trans)
  from this Cons.IH [OF r] show ?case by (rule bwd_rel_trans)
qed

lemma backward_args_no_throw: "backward_args g i as avs ags \<noteq> Throws g' e"
  by (induction as arbitrary: g avs ags) (auto simp: bind_Throws_iff ensure_grad_no_throw)

lemma backward_args_returns:
  "\<forall>a \<in> set as. a < length (nodes_f g) \<and> valid (value' (nodes_f g ! a)) \<Longrightarrow>
   \<exists>g'. backward_args g i as avs ags = Returns g' ()"
proof (induction as arbitrary: g avs ags)
  case Nil
  show ?case by simp
next
  case (Cons a as)
  from Cons.prems have a: "a < length (nodes_f g)" and v: "valid (value' (nodes_f g ! a))" by simp_all
  from ensure_grad_returns [OF v] obtain g1 where e: "ensure_grad g a = Returns g1 ()" by blast
  let ?g2 = "call_backward g1 i (avs @ [a]) (ags @ [a])"
  from ensure_grad_rel [OF e a] have "bwd_rel g g1" by simp
  from this bwd_rel_call_backward have r: "bwd_rel g ?g2" by (rule bwd_rel_trans)
  have "\<forall>a \<in> set as. a < length (nodes_f ?g2) \<and> valid (value' (nodes_f ?g2 ! a))"
    using Cons.prems bwd_rel_length [OF r] bwd_rel_value_nth [OF r] by simp
  from Cons.IH [OF this] a e show ?case by simp
qed

lemma backward_node_rel: "backward_node g i = Returns g' u \<Longrightarrow> bwd_rel g g'"
  unfolding backward_node_def
  by (auto simp: bwd_rel_refl dest: backward_args_rel split: if_splits)

lemma backward_node_no_throw: "backward_node g i \<noteq> Throws g' e"
  unfolding backward_node_def by (simp add: backward_args_no_throw)

lemma bwd_rel_args_ok: "bwd_rel g g' \<Longrightarrow> args_ok g \<Longrightarrow> args_ok g'"
  using args_ok_layout bwd_rel_layout by blast

lemma bwd_rel_realized_ok:
  assumes "bwd_rel g g'" "args_ok g" "realized_ok g"
  shows "realized_ok g'"
  unfolding realized_ok_def
proof (intro allI impI ballI)
  fix p a
  assume p: "p < length (nodes_f g')" and vp: "valid (value' (nodes_f g' ! p))"
    and a: "a \<in> set (args (nodes_f g' ! p))"
  have lay: "layout g' = layout g" using assms(1) by (rule bwd_rel_layout)
  from p layout_length [OF lay] have p': "p < length (nodes_f g)" by simp
  from a layout_args [OF lay p'] have a': "a \<in> set (args (nodes_f g ! p))" by simp
  with assms(2) p' have "a < p" unfolding args_ok_def by blast
  with p' have a'': "a < length (nodes_f g)" by simp
  from vp bwd_rel_value_nth [OF assms(1) p'] have "valid (value' (nodes_f g ! p))" by simp
  with assms(3) p' a' have "valid (value' (nodes_f g ! a))" unfolding realized_ok_def by blast
  with bwd_rel_value_nth [OF assms(1) a''] show "valid (value' (nodes_f g' ! a))" by simp
qed

lemma backward_node_returns:
  assumes "args_ok g" "realized_ok g" "i < length (nodes_f g)"
  shows "\<exists>g'. backward_node g i = Returns g' ()"
proof (cases "valid (value' (nodes_f g ! i))")
  case True
  from assms(1,3) have "\<forall>a \<in> set (args (nodes_f g ! i)). a < length (nodes_f g)"
    unfolding args_ok_def by fastforce
  moreover from assms(2,3) True have "\<forall>a \<in> set (args (nodes_f g ! i)). valid (value' (nodes_f g ! a))"
    unfolding realized_ok_def by simp
  ultimately have "\<forall>a \<in> set (args (nodes_f g ! i)). a < length (nodes_f g) \<and> valid (value' (nodes_f g ! a))"
    by simp
  from backward_args_returns [OF this] assms(3) True show ?thesis
    unfolding backward_node_def by simp
next
  case False
  with assms(3) show ?thesis unfolding backward_node_def by simp
qed

lemma backward_loop_rel: "backward_loop g i = Returns g' u \<Longrightarrow> bwd_rel g g'"
proof (induction i arbitrary: g)
  case 0
  then show ?case by (simp add: backward_node_rel)
next
  case (Suc i)
  from Suc.prems obtain g1 u1 where n: "backward_node g (Suc i) = Returns g1 u1"
    and l: "backward_loop g1 i = Returns g' u" by (auto simp: bind_Returns_iff)
  from backward_node_rel [OF n] Suc.IH [OF l] show ?case by (rule bwd_rel_trans)
qed

lemma backward_loop_no_throw: "backward_loop g i \<noteq> Throws g' e"
  by (induction i arbitrary: g) (auto simp: bind_Throws_iff backward_node_no_throw)

lemma backward_loop_returns:
  "args_ok g \<Longrightarrow> realized_ok g \<Longrightarrow> i < length (nodes_f g) \<Longrightarrow>
   \<exists>g'. backward_loop g i = Returns g' ()"
proof (induction i arbitrary: g)
  case 0
  then show ?case by (simp add: backward_node_returns)
next
  case (Suc i)
  from backward_node_returns [OF Suc.prems] obtain g1 where
    n: "backward_node g (Suc i) = Returns g1 ()" by blast
  note r = backward_node_rel [OF n]
  from Suc.prems(3) bwd_rel_length [OF r] have "i < length (nodes_f g1)" by simp
  from Suc.IH [OF bwd_rel_args_ok [OF r Suc.prems(1)] bwd_rel_realized_ok [OF r Suc.prems(1,2)] this] n
  show ?case by simp
qed

section \<open>forward and backward as a whole\<close>

lemma leaves_iff: "leaves m g' \<longleftrightarrow> (\<exists>r. m = Returns g' r) \<or> (\<exists>e. m = Throws g' e)"
  by (cases m) auto

lemma forward_Returns:
  assumes "args_ok g" "realized_ok g" "forward g n = Returns g' v"
  shows "passes g n \<and> fwd_rel (Suc (id_f n)) g g' \<and> realized_ok g' \<and>
         v = value' (nodes_f g' ! id_f n) \<and> valid v"
proof -
  from assms(3) obtain u where p: "passes g n"
    and r: "forward_recursive (length (nodes_f g)) g (id_f n) = Returns g' u"
    and v: "v = value' (nodes_f g' ! id_f n)"
    unfolding forward_def passes_def
    by (auto simp: bind_Returns_iff CHECK_NODE_Returns_iff)
  from forward_recursive_rel [OF assms(1,2) r] p v show ?thesis by simp
qed

lemma forward_Throws: "forward g n = Throws g' e \<Longrightarrow> g' = g \<and> e = Graph_mismatched \<and> g_f n \<noteq> this g"
  unfolding forward_def
  by (auto simp: bind_Throws_iff CHECK_NODE_Returns_iff CHECK_NODE_Throws_iff forward_recursive_no_throw)

lemma forward_returns:
  assumes "args_ok g" "realized_ok g" "passes g n"
  shows "\<exists>g' v. forward g n = Returns g' v"
proof -
  from assms(3) have i: "id_f n < length (nodes_f g)" and c: "CHECK_NODE g n = Returns g ()"
    unfolding passes_def CHECK_NODE_def by simp_all
  from forward_recursive_returns [OF assms(1,2) i i] c show ?thesis
    unfolding forward_def by auto
qed

lemma backward_Returns:
  assumes "backward g n = Returns g' u"
  shows "passes g n \<and> (\<exists>v. value' (nodes_f g ! id_f n) = Some v \<and> \<not> valid (grad (nodes_f g ! id_f n)) \<and>
     backward_loop (record_call (set_grad g (id_f n)
         (Some (Device_constant (t_device v) (shape (nodes_f g ! id_f n)) 1)))
       (Constant_call (id_f n) (Device_constant (t_device v) (shape (nodes_f g ! id_f n)) 1)))
       (id_f n) = Returns g' u)"
  using assms unfolding backward_def passes_def
  by (auto simp: bind_Returns_iff CHECK_NODE_Returns_iff Let_def split: option.splits if_splits)

lemma backward_Throws:
  assumes "backward g n = Throws g' e"
  shows "g' = g \<and> (e = Graph_mismatched \<or> e = Not_calculated (id_f n) \<or> e = Already_has_gradient (id_f n))"
  using assms unfolding backward_def
  by (auto simp: bind_Throws_iff CHECK_NODE_Returns_iff CHECK_NODE_Throws_iff Let_def
        backward_loop_no_throw split: option.splits if_splits)

lemma backward_rel:
  assumes "backward g n = Returns g' u"
  shows "bwd_rel g g' \<and> valid (grad (nodes_f g' ! id_f n))"
proof -
  from backward_Returns [OF assms] obtain v where p: "passes g n"
    and v: "value' (nodes_f g ! id_f n) = Some v"
    and l: "backward_loop (record_call (set_grad g (id_f n)
         (Some (Device_constant (t_device v) (shape (nodes_f g ! id_f n)) 1)))
       (Constant_call (id_f n) (Device_constant (t_device v) (shape (nodes_f g ! id_f n)) 1)))
       (id_f n) = Returns g' u" (is "backward_loop ?g1 _ = _")
    by blast
  from p have i: "id_f n < length (nodes_f g)" unfolding passes_def by simp
  from v have "valid (value' (nodes_f g ! id_f n))" by (simp add: valid_def)
  from bwd_rel_set_grad [OF i this] have r1: "bwd_rel g ?g1" .
  note r2 = backward_loop_rel [OF l]
  from i have "valid (grad (nodes_f ?g1 ! id_f n))" by (simp add: grad_set_grad valid_def)
  with bwd_rel_grad_valid [OF r2, of "id_f n"] i have "valid (grad (nodes_f g' ! id_f n))" by simp
  with bwd_rel_trans [OF r1 r2] show ?thesis by simp
qed

lemma backward_returns:
  assumes "args_ok g" "realized_ok g" "passes g n"
    and "valid (value' (nodes_f g ! id_f n))" "\<not> valid (grad (nodes_f g ! id_f n))"
  shows "\<exists>g'. backward g n = Returns g' ()"
proof -
  from assms(4) obtain v where v: "value' (nodes_f g ! id_f n) = Some v" by (auto simp: valid_def)
  let ?t = "Device_constant (t_device v) (shape (nodes_f g ! id_f n)) 1"
  let ?g1 = "record_call (set_grad g (id_f n) (Some ?t)) (Constant_call (id_f n) ?t)"
  from assms(3) have i: "id_f n < length (nodes_f g)" and c: "CHECK_NODE g n = Returns g ()"
    unfolding passes_def CHECK_NODE_def by simp_all
  from bwd_rel_set_grad [OF i assms(4)] have r1: "bwd_rel g ?g1" .
  from i have "id_f n < length (nodes_f ?g1)" by simp
  from backward_loop_returns [OF bwd_rel_args_ok [OF r1 assms(1)]
      bwd_rel_realized_ok [OF r1 assms(1,2)] this]
  obtain g' where "backward_loop ?g1 (id_f n) = Returns g' ()" by blast
  with c v assms(5) show ?thesis unfolding backward_def by (simp add: Let_def)
qed

lemma get_value_leaves: "leaves (get_value g n) g' \<Longrightarrow> g' = g"
  unfolding get_value_def leaves_iff
  by (auto simp: bind_Returns_iff bind_Throws_iff CHECK_NODE_Returns_iff CHECK_NODE_Throws_iff)

lemma get_gradient_leaves: "leaves (get_gradient g n) g' \<Longrightarrow> g' = g"
  unfolding get_gradient_def leaves_iff
  by (auto simp: bind_Returns_iff bind_Throws_iff CHECK_NODE_Returns_iff CHECK_NODE_Throws_iff)

lemma fwd_rel_sinks_ok: "fwd_rel b g g' \<Longrightarrow> sinks_ok g \<Longrightarrow> sinks_ok g'"
  using sinks_ok_layout fwd_rel_layout by blast

lemma bwd_rel_sinks_ok: "bwd_rel g g' \<Longrightarrow> sinks_ok g \<Longrightarrow> sinks_ok g'"
  using sinks_ok_layout bwd_rel_layout by blast

lemma fwd_rel_grads_ok:
  assumes "fwd_rel b g g'" "grads_ok g"
  shows "grads_ok g'"
  unfolding grads_ok_def
proof (intro allI impI)
  fix p assume p: "p < length (nodes_f g')" and gp: "valid (grad (nodes_f g' ! p))"
  from p fwd_rel_length [OF assms(1)] have p': "p < length (nodes_f g)" by simp
  from gp map_nth_eq [OF fwd_rel_grad [OF assms(1)] p'] have "valid (grad (nodes_f g ! p))" by simp
  with assms(2) p' have v: "valid (value' (nodes_f g ! p))" unfolding grads_ok_def by blast
  from fwd_rel_valid [OF assms(1) p' v] v show "valid (value' (nodes_f g' ! p))" by simp
qed

lemma bwd_rel_grads_ok:
  assumes "bwd_rel g g'" "grads_ok g"
  shows "grads_ok g'"
  unfolding grads_ok_def
proof (intro allI impI)
  fix p assume p: "p < length (nodes_f g')" and gp: "valid (grad (nodes_f g' ! p))"
  from p bwd_rel_length [OF assms(1)] have p': "p < length (nodes_f g)" by simp
  from assms(1) p' gp have "valid (grad (nodes_f g ! p)) \<or> valid (value' (nodes_f g ! p))"
    unfolding bwd_rel_def by blast
  with assms(2) p' have "valid (value' (nodes_f g ! p))" unfolding grads_ok_def by blast
  with bwd_rel_value_nth [OF assms(1) p'] show "valid (value' (nodes_f g' ! p))" by simp
qed

lemma fwd_rel_memo_ok:
  assumes "fwd_rel b g g'" "memo_ok g"
  shows "memo_ok g'"
proof -
  from fwd_relD [OF assms(1)] obtain new where l: "layout g' = layout g"
    and c: "calls g' = calls g @ new" and d: "distinct (fwd_ids new)"
    and n: "\<forall>p \<in> set (fwd_ids new). p < b \<and> p < length (nodes_f g) \<and>
           \<not> valid (value' (nodes_f g ! p)) \<and> valid (value' (nodes_f g' ! p))"
    and o: "\<forall>p < length (nodes_f g). p \<notin> set (fwd_ids new) \<longrightarrow>
           value' (nodes_f g' ! p) = value' (nodes_f g ! p)"
    by blast
  have len: "length (nodes_f g') = length (nodes_f g)" using l by (rule layout_length)
  from assms(2) have d0: "distinct (fwd_ids (calls g))"
    and v0: "\<forall>p \<in> set (fwd_ids (calls g)). p < length (nodes_f g) \<and> valid (value' (nodes_f g ! p))"
    unfolding memo_ok_def by simp_all
  from v0 n have disj: "set (fwd_ids (calls g)) \<inter> set (fwd_ids new) = {}" by blast
  have "distinct (fwd_ids (calls g'))" using c d d0 disj by simp
  moreover have "\<forall>p \<in> set (fwd_ids (calls g')). p < length (nodes_f g') \<and> valid (value' (nodes_f g' ! p))"
  proof
    fix p assume "p \<in> set (fwd_ids (calls g'))"
    with c consider "p \<in> set (fwd_ids (calls g))" | "p \<in> set (fwd_ids new)" by auto
    then show "p < length (nodes_f g') \<and> valid (value' (nodes_f g' ! p))"
    proof cases
      case 1
      with disj have "p \<notin> set (fwd_ids new)" by blast
      with 1 v0 o len show ?thesis by auto
    next
      case 2
      with n len show ?thesis by auto
    qed
  qed
  ultimately show ?thesis unfolding memo_ok_def by simp
qed

lemma bwd_rel_memo_ok:
  assumes "bwd_rel g g'" "memo_ok g"
  shows "memo_ok g'"
proof -
  have "fwd_ids (calls g') = fwd_ids (calls g)" using assms(1) unfolding bwd_rel_def by simp
  with assms(2) bwd_rel_length [OF assms(1)] bwd_rel_value_nth [OF assms(1)]
  show ?thesis unfolding memo_ok_def by simp
qed

section \<open>What holds throughout the life of a graph\<close>

lemma add_function_nth_old:
  assumes "add_function g fn as = Returns g' n" "p < length (nodes_f g)"
  shows "args (nodes_f g' ! p) = args (nodes_f g ! p) \<and>
         value' (nodes_f g' ! p) = value' (nodes_f g ! p) \<and>
         grad (nodes_f g' ! p) = grad (nodes_f g ! p) \<and>
         shape (nodes_f g' ! p) = shape (nodes_f g ! p) \<and>
         func (nodes_f g' ! p) = func (nodes_f g ! p) \<and>
         set (sinks (nodes_f g' ! p)) \<subseteq> insert (length (nodes_f g)) (set (sinks (nodes_f g ! p)))"
proof -
  let ?ns = "add_sinks (length (nodes_f g)) (map id_f as) (nodes_f g)"
  from add_function_Returns [OF assms(1)] assms(2) have "nodes_f g' ! p = ?ns ! p"
    by (auto simp: nth_append)
  moreover have "args (?ns ! p) = args (nodes_f g ! p)"
    using map_nth_eq [OF add_sinks_args assms(2)] .
  moreover have "value' (?ns ! p) = value' (nodes_f g ! p)"
    using map_nth_eq [OF add_sinks_value assms(2)] .
  moreover have "grad (?ns ! p) = grad (nodes_f g ! p)"
    using map_nth_eq [OF add_sinks_grad assms(2)] .
  moreover have "shape (?ns ! p) = shape (nodes_f g ! p)"
    using map_nth_eq [OF add_sinks_shape assms(2)] .
  moreover have "func (?ns ! p) = func (nodes_f g ! p)"
    using map_nth_eq [OF add_sinks_func assms(2)] .
  moreover note add_sinks_sinks [OF assms(2), of "length (nodes_f g)" "map id_f as"]
  ultimately show ?thesis by simp
qed

lemma add_function_nth_new:
  assumes "add_function g fn as = Returns g' n"
  shows "length (nodes_f g') = Suc (length (nodes_f g)) \<and> this g' = this g \<and> calls g' = calls g \<and>
         args (nodes_f g' ! length (nodes_f g)) = map id_f as \<and>
         sinks (nodes_f g' ! length (nodes_f g)) = [] \<and>
         value' (nodes_f g' ! length (nodes_f g)) = None \<and>
         grad (nodes_f g' ! length (nodes_f g)) = None \<and>
         func (nodes_f g' ! length (nodes_f g)) = fn \<and>
         forward_shape fn (map (\<lambda>n. shape (nodes_f g ! id_f n)) as)
           = Some (shape (nodes_f g' ! length (nodes_f g))) \<and>
         list_all (passes g) as \<and> n = \<lparr>g_f = this g, id_f = length (nodes_f g)\<rparr>"
  using add_function_Returns [OF assms] by (auto simp: nth_append)

lemma add_function_args_ok:
  assumes "add_function g fn as = Returns g' n" "args_ok g"
  shows "args_ok g'"
  unfolding args_ok_def
proof (intro allI impI ballI)
  fix p a assume p: "p < length (nodes_f g')" and a: "a \<in> set (args (nodes_f g' ! p))"
  note new = add_function_nth_new [OF assms(1)]
  show "a < p"
  proof (cases "p < length (nodes_f g)")
    case True
    with a add_function_nth_old [OF assms(1) True] assms(2) show ?thesis
      unfolding args_ok_def by auto
  next
    case False
    with p new have pe: "p = length (nodes_f g)" by simp
    with a new obtain m where "m \<in> set as" "a = id_f m" by auto
    moreover from new have "list_all (passes g) as" by simp
    ultimately have "a < length (nodes_f g)" by (auto simp: list_all_iff passes_def)
    with pe show ?thesis by simp
  qed
qed

lemma add_function_sinks_ok:
  assumes "add_function g fn as = Returns g' n" "sinks_ok g"
  shows "sinks_ok g'"
  unfolding sinks_ok_def
proof (intro allI impI ballI)
  fix p s assume p: "p < length (nodes_f g')" and s: "s \<in> set (sinks (nodes_f g' ! p))"
  note new = add_function_nth_new [OF assms(1)]
  show "p < s"
  proof (cases "p < length (nodes_f g)")
    case True
    from s add_function_nth_old [OF assms(1) True]
    have "s = length (nodes_f g) \<or> s \<in> set (sinks (nodes_f g ! p))" by auto
    with True assms(2) show ?thesis unfolding sinks_ok_def by auto
  next
    case False
    with p new have "p = length (nodes_f g)" by simp
    with s new show ?thesis by simp
  qed
qed

lemma add_function_realized_ok:
  assumes "add_function g fn as = Returns g' n" "args_ok g" "realized_ok g"
  shows "realized_ok g'"
  unfolding realized_ok_def
proof (intro allI impI ballI)
  fix p a assume p: "p < length (nodes_f g')" and vp: "valid (value' (nodes_f g' ! p))"
    and a: "a \<in> set (args (nodes_f g' ! p))"
  note new = add_function_nth_new [OF assms(1)]
  from vp new have "p \<noteq> length (nodes_f g)" by (auto simp: valid_def)
  with p new have p': "p < length (nodes_f g)" by simp
  note old = add_function_nth_old [OF assms(1) p']
  from a old have a': "a \<in> set (args (nodes_f g ! p))" by simp
  with assms(2) p' have "a < p" unfolding args_ok_def by blast
  with p' have a'': "a < length (nodes_f g)" by simp
  from vp old have "valid (value' (nodes_f g ! p))" by simp
  with assms(3) p' a' have "valid (value' (nodes_f g ! a))" unfolding realized_ok_def by blast
  with add_function_nth_old [OF assms(1) a''] show "valid (value' (nodes_f g' ! a))" by simp
qed

lemma add_function_grads_ok:
  assumes "add_function g fn as = Returns g' n" "grads_ok g"
  shows "grads_ok g'"
  unfolding grads_ok_def
proof (intro allI impI)
  fix p assume p: "p < length (nodes_f g')" and gp: "valid (grad (nodes_f g' ! p))"
  note new = add_function_nth_new [OF assms(1)]
  from gp new have "p \<noteq> length (nodes_f g)" by (auto simp: valid_def)
  with p new have p': "p < length (nodes_f g)" by simp
  note old = add_function_nth_old [OF assms(1) p']
  from gp old assms(2) p' show "valid (value' (nodes_f g' ! p))"
    unfolding grads_ok_def by simp
qed

lemma add_function_memo_ok:
  assumes "add_function g fn as = Returns g' n" "memo_ok g"
  shows "memo_ok g'"
proof -
  note new = add_function_nth_new [OF assms(1)]
  have "p < length (nodes_f g') \<and> valid (value' (nodes_f g' ! p))"
    if "p \<in> set (fwd_ids (calls g))" for p
  proof -
    from that assms(2) have p: "p < length (nodes_f g)" and v: "valid (value' (nodes_f g ! p))"
      unfolding memo_ok_def by simp_all
    from add_function_nth_old [OF assms(1) p] v p new show ?thesis by simp
  qed
  with assms(2) new show ?thesis unfolding memo_ok_def by simp
qed

lemma lifetime_invariants:
  "lifetime g \<Longrightarrow> args_ok g \<and> sinks_ok g \<and> realized_ok g \<and> grads_ok g \<and> memo_ok g"
proof (induction rule: lifetime.induct)
  case (lifetime_new a)
  show ?case by (simp add: args_ok_def sinks_ok_def realized_ok_def grads_ok_def memo_ok_def)
next
  case (lifetime_add_function g fn as g')
  from lifetime_add_function.hyps(2) consider n where "add_function g fn as = Returns g' n"
    | e where "add_function g fn as = Throws g' e" by (auto simp: leaves_iff)
  then show ?case
  proof cases
    case 1
    with lifetime_add_function.IH show ?thesis
      by (simp add: add_function_args_ok add_function_sinks_ok add_function_realized_ok
            add_function_grads_ok add_function_memo_ok)
  next
    case 2
    from add_function_Throws [OF 2] lifetime_add_function.IH show ?thesis by simp
  qed
next
  case (lifetime_forward g n g')
  from lifetime_forward.hyps(2) consider v where "forward g n = Returns g' v"
    | e where "forward g n = Throws g' e" by (auto simp: leaves_iff)
  then show ?case
  proof cases
    case 1
    from lifetime_forward.IH forward_Returns [OF _ _ 1]
    have r: "fwd_rel (Suc (id_f n)) g g'" and ok: "realized_ok g'" by simp_all
    from lifetime_forward.IH fwd_rel_args_ok [OF r] fwd_rel_sinks_ok [OF r] fwd_rel_grads_ok [OF r]
      fwd_rel_memo_ok [OF r] ok show ?thesis by simp
  next
    case 2
    from forward_Throws [OF 2] lifetime_forward.IH show ?thesis by simp
  qed
next
  case (lifetime_backward g n g')
  from lifetime_backward.hyps(2) consider u where "backward g n = Returns g' u"
    | e where "backward g n = Throws g' e" by (auto simp: leaves_iff)
  then show ?case
  proof cases
    case 1
    from backward_rel [OF 1] have r: "bwd_rel g g'" by simp
    from lifetime_backward.IH bwd_rel_args_ok [OF r] bwd_rel_sinks_ok [OF r] bwd_rel_grads_ok [OF r]
      bwd_rel_memo_ok [OF r] bwd_rel_realized_ok [OF r] show ?thesis by simp
  next
    case 2
    from backward_Throws [OF 2] lifetime_backward.IH show ?thesis by simp
  qed
next
  case (lifetime_get_value g n g')
  from get_value_leaves [OF lifetime_get_value.hyps(2)] lifetime_get_value.IH show ?case by simp
next
  case (lifetime_get_gradient g n g')
  from get_gradient_leaves [OF lifetime_get_gradient.hyps(2)] lifetime_get_gradient.IH show ?case by simp
qed

section \<open>The example graph; handle checks and failures\<close>

lemma ex_add_x: "add_function ex_new (input_fn 3) [] = Returns ex_x node_x"
  by (simp add: add_function_def ex_new_def ex_x_def node_x_def input_fn_def ex_node_def)

lemma ex_add_y: "add_function ex_x (input_fn 4) [] = Returns ex_xy node_y"
  by (simp add: add_function_def ex_xy_def ex_x_def node_y_def input_fn_def ex_node_def)

lemma ex_add_z: "add_function ex_xy sum_fn [node_x, node_y] = Returns ex_built node_z"
  by (simp add: add_function_def ex_xy_def ex_built_def node_x_def node_y_def node_z_def
        sum_fn_def ex_node_def CHECK_NODE_def Shape_scalar_def has_same_dims_def)

lemma ex_forward_z: "forward ex_built node_z = Returns ex_forwarded (Some (scalar_of 7))"
  by (simp add: forward_def ex_built_def ex_forwarded_def node_z_def ex_node_def CHECK_NODE_def
        numeral_3_eq_3 valid_def set_value_def record_call_def sum_fn_def input_fn_def scalar_of_def)

lemma ex_backward_z: "backward ex_forwarded node_z = Returns ex_backwarded ()"
  by (simp add: backward_def ex_forwarded_def ex_backwarded_def node_z_def ex_node_def CHECK_NODE_def
        numeral_2_eq_2 valid_def set_grad_def record_call_def sum_fn_def input_fn_def scalar_of_def
        backward_node_def ensure_grad_def call_backward_def Device_constant_def
        num_total_elements_def Shape_scalar_def Let_def)

lemma lifetime_ex_new: "lifetime ex_new"
  unfolding ex_new_def by (rule lifetime_new)

lemma lifetime_ex_x: "lifetime ex_x"
proof -
  have "leaves (add_function ex_new (input_fn 3) []) ex_x" by (simp add: ex_add_x)
  with lifetime_ex_new show ?thesis by (rule lifetime_add_function)
qed

lemma lifetime_ex_xy: "lifetime ex_xy"
proof -
  have "leaves (add_function ex_x (input_fn 4) []) ex_xy" by (simp add: ex_add_y)
  with lifetime_ex_x show ?thesis by (rule lifetime_add_function)
qed

lemma lifetime_ex_built: "lifetime ex_built"
proof -
  have "leaves (add_function ex_xy sum_fn [node_x, node_y]) ex_built" by (simp add: ex_add_z)
  with lifetime_ex_xy show ?thesis by (rule lifetime_add_function)
qed

lemma lifetime_ex_forwarded: "lifetime ex_forwarded"
proof -
  have "leaves (forward ex_built node_z) ex_forwarded" by (simp add: ex_forward_z)
  with lifetime_ex_built show ?thesis by (rule lifetime_forward)
qed

text \<open>
  C5. When shape inference fails for handles that pass the checks, \<open>add_function\<close> throws
  the shape mismatch and leaves the graph as it was, node records and sink lists
  included; and whatever \<open>add_function\<close> throws, the graph it leaves is the one it found.
\<close>

theorem add_function_shape_mismatch_leaves_graph:
  "(list_all (passes g) as
      \<and> forward_shape fn (map (\<lambda>n. shape (nodes_f g ! id_f n)) as) = None \<longrightarrow>
      add_function g fn as = Throws g Shape_mismatch)
   \<and> (add_function g fn as = Throws g' e \<longrightarrow>
        g' = g \<and> length (nodes_f g') = length (nodes_f g)
        \<and> map sinks (nodes_f g') = map sinks (nodes_f g))"
proof -
  have "add_function g fn as = Throws g Shape_mismatch"
    if "list_all (passes g) as"
      and "forward_shape fn (map (\<lambda>n. shape (nodes_f g ! id_f n)) as) = None"
    using gather_all_pass [OF that(1)] that(2) unfolding add_function_def by simp
  moreover have "g' = g" if "add_function g fn as = Throws g' e"
    using add_function_Throws [OF that] by simp
  ultimately show ?thesis by blast
qed

theorem add_function_shape_mismatch_leaves_graph_witness:
  "list_all (passes ex_x) [node_x]
   \<and> forward_shape (input_fn 5) (map (\<lambda>n. shape (nodes_f ex_x ! id_f n)) [node_x]) = None
   \<and> add_function ex_x (input_fn 5) [node_x] = Throws ex_x Shape_mismatch
   \<and> length (nodes_f ex_x) = 1"
proof -
  have a: "list_all (passes ex_x) [node_x]"
    by (simp add: passes_def ex_x_def node_x_def)
  have b: "forward_shape (input_fn 5) (map (\<lambda>n. shape (nodes_f ex_x ! id_f n)) [node_x]) = None"
    by (simp add: input_fn_def)
  from add_function_shape_mismatch_leaves_graph [of ex_x "[node_x]" "input_fn 5"] a b
  show ?thesis by (simp add: ex_x_def)
qed

text \<open>
  C7. For \<open>forward\<close>, \<open>backward\<close>, \<open>get_value\<close> and \<open>get_gradient\<close>: a handle of another
  graph is refused with the graph-mismatch error and the graph is left as it was; a
  handle of this graph whose position is out of range for it aborts. For
  \<open>add_function\<close>, whose handles are checked in order: after handles that pass the
  checks, a handle of another graph is refused in the same way with the graph left as
  it was, and a handle of this graph with a position out of range aborts.
\<close>

theorem check_node_mismatch_throws_out_of_range_aborts:
  fixes g :: "'a::{zero,one} Graph"
  shows "(g_f n \<noteq> this g \<longrightarrow>
       forward g n = Throws g Graph_mismatched \<and> backward g n = Throws g Graph_mismatched
       \<and> get_value g n = Throws g Graph_mismatched \<and> get_gradient g n = Throws g Graph_mismatched)
   \<and> (g_f n = this g \<and> length (nodes_f g) \<le> id_f n \<longrightarrow>
       forward g n = Aborts \<and> backward g n = Aborts
       \<and> get_value g n = Aborts \<and> get_gradient g n = Aborts)
   \<and> (list_all (passes g) pre \<and> g_f n \<noteq> this g \<longrightarrow>
       add_function g fn (pre @ n # post) = Throws g Graph_mismatched)
   \<and> (list_all (passes g) pre \<and> g_f n = this g \<and> length (nodes_f g) \<le> id_f n \<longrightarrow>
       add_function g fn (pre @ n # post) = Aborts)"
  by (simp add: forward_def backward_def get_value_def get_gradient_def CHECK_NODE_def
        add_function_def gather_first_foreign gather_first_out_of_range)

theorem check_node_mismatch_throws_out_of_range_aborts_witness:
  "forward ex_x \<lparr>g_f = 8, id_f = 0\<rparr> = Throws ex_x Graph_mismatched
   \<and> backward ex_x \<lparr>g_f = 8, id_f = 0\<rparr> = Throws ex_x Graph_mismatched
   \<and> get_value ex_x \<lparr>g_f = 7, id_f = 1\<rparr> = Aborts
   \<and> list_all (passes ex_x) [node_x]
   \<and> add_function ex_x sum_fn ([node_x] @ \<lparr>g_f = 8, id_f = 0\<rparr> # []) = Throws ex_x Graph_mismatched
   \<and> add_function ex_x sum_fn ([node_x] @ \<lparr>g_f = 7, id_f = 1\<rparr> # []) = Aborts"
proof -
  have a: "list_all (passes ex_x) [node_x]"
    by (simp add: passes_def ex_x_def node_x_def)
  have b: "this ex_x = 7" "length (nodes_f ex_x) = 1" by (simp_all add: ex_x_def)
  from check_node_mismatch_throws_out_of_range_aborts
         [of "\<lparr>g_f = 8, id_f = 0\<rparr>" ex_x "[node_x]" sum_fn "[]"]
       check_node_mismatch_throws_out_of_range_aborts
         [of "\<lparr>g_f = 7, id_f = 1\<rparr>" ex_x "[node_x]" sum_fn "[]"] a b
  show ?thesis by simp
qed

text \<open>
  C10. Whatever \<open>backward\<close> throws, it throws before it writes: the graph it leaves is the
  graph it found (values, gradients and the calls made included). It throws for a
  handle of another graph, for a target without a value and for a target with a
  gradient.
\<close>

theorem backward_throws_before_it_writes:
  fixes g :: "'a::{zero,one} Graph"
  shows "(backward g n = Throws g' e \<longrightarrow> g' = g)
   \<and> (g_f n \<noteq> this g \<longrightarrow> backward g n = Throws g Graph_mismatched)
   \<and> (passes g n \<and> \<not> valid (value' (nodes_f g ! id_f n)) \<longrightarrow>
        backward g n = Throws g (Not_calculated (id_f n)))
   \<and> (passes g n \<and> valid (value' (nodes_f g ! id_f n)) \<and> valid (grad (nodes_f g ! id_f n)) \<longrightarrow>
        backward g n = Throws g (Already_has_gradient (id_f n)))"
proof -
  have "backward g n = Throws g' e \<longrightarrow> g' = g"
    using backward_Throws [of g n g' e] by blast
  then show ?thesis
    by (auto simp: backward_def CHECK_NODE_def passes_def valid_def Let_def split: option.splits)
qed

theorem backward_throws_before_it_writes_witness:
  "backward ex_built node_z = Throws ex_built (Not_calculated 2)
   \<and> backward ex_backwarded node_z = Throws ex_backwarded (Already_has_gradient 2)
   \<and> backward ex_built \<lparr>g_f = 8, id_f = 2\<rparr> = Throws ex_built Graph_mismatched"
proof -
  have a: "passes ex_built node_z" "\<not> valid (value' (nodes_f ex_built ! id_f node_z))"
    "this ex_built = 7" "id_f node_z = 2"
    by (simp_all add: passes_def ex_built_def node_z_def valid_def ex_node_def)
  have b: "passes ex_backwarded node_z" "valid (value' (nodes_f ex_backwarded ! id_f node_z))"
    "valid (grad (nodes_f ex_backwarded ! id_f node_z))"
    by (simp_all add: passes_def ex_backwarded_def node_z_def valid_def ex_node_def)
  from backward_throws_before_it_writes [of ex_built node_z]
       backward_throws_before_it_writes [of ex_backwarded node_z]
       backward_throws_before_it_writes [of ex_built "\<lparr>g_f = 8, id_f = 2\<rparr>"] a b
  show ?thesis by simp
qed

section \<open>Positions, sinks and the preconditions of backward\<close>

lemma layout_map_sinks:
  assumes "layout g' = layout g"
  shows "map sinks (nodes_f g') = map sinks (nodes_f g)"
proof -
  have "map (\<lambda>n. (shape n, func n, args n, sinks n)) (nodes_f g')
      = map (\<lambda>n. (shape n, func n, args n, sinks n)) (nodes_f g)"
    using assms unfolding layout_def by simp
  then have "map (\<lambda>t. snd (snd (snd t))) (map (\<lambda>n. (shape n, func n, args n, sinks n)) (nodes_f g'))
      = map (\<lambda>t. snd (snd (snd t))) (map (\<lambda>n. (shape n, func n, args n, sinks n)) (nodes_f g))"
    by simp
  then show ?thesis by (simp add: comp_def)
qed

lemma add_sinks_sinks_append:
  "p < length ns \<Longrightarrow>
   sinks (add_sinks r ids ns ! p) = sinks (ns ! p) @ replicate (count_list ids p) r"
proof (induction ids arbitrary: ns)
  case Nil
  then show ?case by simp
next
  case (Cons a ids)
  let ?ns = "ns[a := (ns ! a)\<lparr>sinks := sinks (ns ! a) @ [r]\<rparr>]"
  have "sinks (?ns ! p) = (if a = p then sinks (ns ! p) @ [r] else sinks (ns ! p))"
    using Cons.prems by (cases "a = p") auto
  moreover have "sinks (add_sinks r ids ?ns ! p) = sinks (?ns ! p) @ replicate (count_list ids p) r"
    using Cons.IH [of ?ns] Cons.prems by simp
  ultimately show ?case by (simp add: replicate_app_Cons_same)
qed

lemma add_function_sinks_append:
  assumes "add_function g fn as = Returns g' n" "p < length (nodes_f g)"
  shows "sinks (nodes_f g' ! p)
     = sinks (nodes_f g ! p) @ replicate (count_list (map id_f as) p) (length (nodes_f g))"
proof -
  from add_function_Returns [OF assms(1)] assms(2)
  have "nodes_f g' ! p = add_sinks (length (nodes_f g)) (map id_f as) (nodes_f g) ! p"
    by (auto simp: nth_append)
  with add_sinks_sinks_append [OF assms(2)] show ?thesis by simp
qed

text \<open>
  C2. In every state of a graph with fewer than \<open>2^31\<close> nodes every operand position of
  a node is below the node's own position, so every operand stands before its node in
  the order 0..N-1; and \<open>add_function\<close> gives the new node the number of nodes there
  were, makes the graph one node longer, records the positions of the handles as its
  operands, all of them below the new position, and leaves the operands of the other
  nodes as they were.
\<close>

theorem positions_follow_creation_order:
  fixes g :: "'a::{zero,one} Graph"
  assumes "lifetime g" "length (nodes_f g) < 2 ^ 31"
  shows "(\<forall>p < length (nodes_f g). \<forall>a \<in> set (args (nodes_f g ! p)). a < p)
    \<and> (\<forall>p < length (nodes_f g). \<forall>a \<in> set (args (nodes_f g ! p)).
          a \<in> set (take p [0..<length (nodes_f g)]))
    \<and> (\<forall>fn as g' n. add_function g fn as = Returns g' n \<longrightarrow>
          id_f n = length (nodes_f g) \<and> g_f n = this g
          \<and> length (nodes_f g') = Suc (length (nodes_f g))
          \<and> args (nodes_f g' ! id_f n) = map id_f as
          \<and> (\<forall>a \<in> set (map id_f as). a < id_f n)
          \<and> (\<forall>p < length (nodes_f g). args (nodes_f g' ! p) = args (nodes_f g ! p)))"
proof -
  from lifetime_invariants [OF assms(1)] have ok: "args_ok g" by simp
  then have 1: "\<forall>p < length (nodes_f g). \<forall>a \<in> set (args (nodes_f g ! p)). a < p"
    unfolding args_ok_def .
  have 2: "a \<in> set (take p [0..<length (nodes_f g)])"
    if "p < length (nodes_f g)" "a \<in> set (args (nodes_f g ! p))" for p a
  proof -
    from 1 that have "a < p" by blast
    with that(1) show ?thesis by (simp add: take_upt)
  qed
  have 3: "id_f n = length (nodes_f g) \<and> g_f n = this g
          \<and> length (nodes_f g') = Suc (length (nodes_f g))
          \<and> args (nodes_f g' ! id_f n) = map id_f as
          \<and> (\<forall>a \<in> set (map id_f as). a < id_f n)
          \<and> (\<forall>p < length (nodes_f g). args (nodes_f g' ! p) = args (nodes_f g ! p))"
    if r: "add_function g fn as = Returns g' n" for fn as g' n
  proof -
    note new = add_function_nth_new [OF r]
    from new have "\<forall>a \<in> set (map id_f as). a < length (nodes_f g)"
      by (auto simp: list_all_iff passes_def)
    with new add_function_nth_old [OF r] show ?thesis by simp
  qed
  from 1 2 3 show ?thesis by blast
qed

theorem positions_follow_creation_order_witness:
  "lifetime ex_xy \<and> length (nodes_f ex_xy) < 2 ^ 31
   \<and> add_function ex_xy sum_fn [node_x, node_y] = Returns ex_built node_z
   \<and> id_f node_z = length (nodes_f ex_xy) \<and> length (nodes_f ex_built) = 3
   \<and> args (nodes_f ex_built ! id_f node_z) = [0, 1]
   \<and> lifetime ex_built \<and> length (nodes_f ex_built) < 2 ^ 31
   \<and> list_all (\<lambda>a. a < 2) (args (nodes_f ex_built ! 2))"
proof -
  have b1: "length (nodes_f ex_built) < 2 ^ 31" by (simp add: ex_built_def)
  have b2: "length (nodes_f ex_xy) < 2 ^ 31" by (simp add: ex_xy_def)
  have "2 < length (nodes_f ex_built)" by (simp add: ex_built_def)
  with positions_follow_creation_order [OF lifetime_ex_built b1]
  have "\<forall>a \<in> set (args (nodes_f ex_built ! 2)). a < 2" by blast
  then have "list_all (\<lambda>a. a < 2) (args (nodes_f ex_built ! 2))" by (simp add: list_all_iff)
  moreover from positions_follow_creation_order [OF lifetime_ex_xy b2] ex_add_z
  have "id_f node_z = length (nodes_f ex_xy) \<and> length (nodes_f ex_built) = Suc (length (nodes_f ex_xy))
     \<and> args (nodes_f ex_built ! id_f node_z) = map id_f [node_x, node_y]" by blast
  moreover have "length (nodes_f ex_xy) = 2" by (simp add: ex_xy_def)
  moreover have "map id_f [node_x, node_y] = [0, 1]" by (simp add: node_x_def node_y_def)
  ultimately show ?thesis
    using lifetime_ex_xy lifetime_ex_built ex_add_z b1 b2 by auto
qed

text \<open>
  C9. In every state of a graph with fewer than \<open>2^31\<close> nodes every position in the sink
  list of a node is above the node's own position. \<open>add_function\<close> keeps the sink list of
  every old node and appends to it the new position, the number of nodes there were,
  once for each time the node is an operand of the new node (so nothing for a node that
  is not an operand), and gives the new node an empty list; \<open>forward\<close> and \<open>backward\<close>
  leave every sink list as it was.
\<close>

theorem sinks_stand_above_their_node:
  fixes g :: "'a::{zero,one} Graph"
  assumes "lifetime g" "length (nodes_f g) < 2 ^ 31"
  shows "(\<forall>p < length (nodes_f g). \<forall>s \<in> set (sinks (nodes_f g ! p)). p < s)
    \<and> (\<forall>fn as g' n. add_function g fn as = Returns g' n \<longrightarrow>
          (\<forall>p < length (nodes_f g).
             sinks (nodes_f g' ! p) = sinks (nodes_f g ! p)
               @ replicate (count_list (map id_f as) p) (length (nodes_f g)))
          \<and> sinks (nodes_f g' ! length (nodes_f g)) = []
          \<and> (\<forall>p < length (nodes_f g'). \<forall>s \<in> set (sinks (nodes_f g' ! p)). p < s))
    \<and> (\<forall>n g' v. forward g n = Returns g' v \<longrightarrow> map sinks (nodes_f g') = map sinks (nodes_f g))
    \<and> (\<forall>n g' u. backward g n = Returns g' u \<longrightarrow> map sinks (nodes_f g') = map sinks (nodes_f g))"
proof -
  note inv = lifetime_invariants [OF assms(1)]
  from inv have 1: "\<forall>p < length (nodes_f g). \<forall>s \<in> set (sinks (nodes_f g ! p)). p < s"
    unfolding sinks_ok_def by simp
  have 2: "(\<forall>p < length (nodes_f g).
             sinks (nodes_f g' ! p) = sinks (nodes_f g ! p)
               @ replicate (count_list (map id_f as) p) (length (nodes_f g)))
          \<and> sinks (nodes_f g' ! length (nodes_f g)) = []
          \<and> (\<forall>p < length (nodes_f g'). \<forall>s \<in> set (sinks (nodes_f g' ! p)). p < s)"
    if r: "add_function g fn as = Returns g' n" for fn as g' n
  proof -
    from inv add_function_sinks_ok [OF r] have "sinks_ok g'" by simp
    then have "\<forall>p < length (nodes_f g'). \<forall>s \<in> set (sinks (nodes_f g' ! p)). p < s"
      unfolding sinks_ok_def .
    with add_function_nth_new [OF r] add_function_sinks_append [OF r] show ?thesis by simp
  qed
  have 3: "map sinks (nodes_f g') = map sinks (nodes_f g)"
    if r: "forward g n = Returns g' v" for n g' v
  proof -
    from inv forward_Returns [OF _ _ r] have "fwd_rel (Suc (id_f n)) g g'" by simp
    then show ?thesis by (intro layout_map_sinks fwd_rel_layout)
  qed
  have 4: "map sinks (nodes_f g') = map sinks (nodes_f g)"
    if r: "backward g n = Returns g' u" for n g' u
  proof -
    from backward_rel [OF r] have "bwd_rel g g'" by simp
    then show ?thesis by (intro layout_map_sinks bwd_rel_layout)
  qed
  from 1 2 3 4 show ?thesis by blast
qed

theorem sinks_stand_above_their_node_witness:
  "lifetime ex_built \<and> length (nodes_f ex_built) < 2 ^ 31
   \<and> sinks (nodes_f ex_built ! 0) = [2] \<and> list_all (\<lambda>s. 0 < s) (sinks (nodes_f ex_built ! 0))
   \<and> forward ex_built node_z = Returns ex_forwarded (Some (scalar_of 7))
   \<and> map sinks (nodes_f ex_forwarded) = [[2], [2], []]
   \<and> lifetime ex_xy \<and> length (nodes_f ex_xy) < 2 ^ 31
   \<and> add_function ex_xy sum_fn [node_x, node_y] = Returns ex_built node_z
   \<and> sinks (nodes_f ex_built ! 1) = sinks (nodes_f ex_xy ! 1) @ [2]"
proof -
  have b1: "length (nodes_f ex_built) < 2 ^ 31" by (simp add: ex_built_def)
  have b2: "length (nodes_f ex_xy) < 2 ^ 31" by (simp add: ex_xy_def)
  have "0 < length (nodes_f ex_built)" by (simp add: ex_built_def)
  with sinks_stand_above_their_node [OF lifetime_ex_built b1]
  have "\<forall>s \<in> set (sinks (nodes_f ex_built ! 0)). 0 < s" by blast
  then have "list_all (\<lambda>s. 0 < s) (sinks (nodes_f ex_built ! 0))" by (simp add: list_all_iff)
  moreover from sinks_stand_above_their_node [OF lifetime_ex_built b1] ex_forward_z
  have "map sinks (nodes_f ex_forwarded) = map sinks (nodes_f ex_built)" by blast
  moreover have "1 < length (nodes_f ex_xy)" by (simp add: ex_xy_def)
  with sinks_stand_above_their_node [OF lifetime_ex_xy b2] ex_add_z
  have "sinks (nodes_f ex_built ! 1) = sinks (nodes_f ex_xy ! 1)
      @ replicate (count_list (map id_f [node_x, node_y]) 1) (length (nodes_f ex_xy))" by blast
  then have "sinks (nodes_f ex_built ! 1) = sinks (nodes_f ex_xy ! 1) @ [2]"
    by (simp add: node_x_def node_y_def ex_xy_def)
  ultimately show ?thesis
    using lifetime_ex_built lifetime_ex_xy ex_forward_z ex_add_z b1 b2
    by (simp add: ex_built_def ex_node_def)
qed

text \<open>
  C4. For a graph in any of its states and a handle that passes the checks: \<open>backward\<close> on
  a target without a value throws "not calculated"; on a target that has a gradient it
  throws "already has the gradient"; on a target with a value and without a gradient it
  returns, and a second \<open>backward\<close> on the same target then throws "already has the
  gradient" and leaves the graph as the first call left it.
\<close>

theorem backward_preconditions:
  fixes g :: "'a::{zero,one} Graph"
  assumes "lifetime g" "passes g n"
  shows "(\<not> valid (value' (nodes_f g ! id_f n)) \<longrightarrow>
            backward g n = Throws g (Not_calculated (id_f n)))
    \<and> (valid (grad (nodes_f g ! id_f n)) \<longrightarrow>
            backward g n = Throws g (Already_has_gradient (id_f n)))
    \<and> (valid (value' (nodes_f g ! id_f n)) \<and> \<not> valid (grad (nodes_f g ! id_f n)) \<longrightarrow>
          (\<exists>g'. backward g n = Returns g' ()
             \<and> backward g' n = Throws g' (Already_has_gradient (id_f n))))"
proof -
  note inv = lifetime_invariants [OF assms(1)]
  from assms(2) have i: "id_f n < length (nodes_f g)" and c: "CHECK_NODE g n = Returns g ()"
    unfolding passes_def CHECK_NODE_def by simp_all
  have 1: "backward g n = Throws g (Not_calculated (id_f n))"
    if "\<not> valid (value' (nodes_f g ! id_f n))"
    using that c unfolding backward_def by (simp add: valid_def Let_def)
  have 2: "backward g n = Throws g (Already_has_gradient (id_f n))"
    if gr: "valid (grad (nodes_f g ! id_f n))"
  proof -
    from inv i gr have "valid (value' (nodes_f g ! id_f n))" unfolding grads_ok_def by blast
    with gr c show ?thesis unfolding backward_def by (auto simp: valid_def Let_def)
  qed
  have 3: "\<exists>g'. backward g n = Returns g' ()
             \<and> backward g' n = Throws g' (Already_has_gradient (id_f n))"
    if v: "valid (value' (nodes_f g ! id_f n))" and ng: "\<not> valid (grad (nodes_f g ! id_f n))"
  proof -
    from inv backward_returns [OF _ _ assms(2) v ng] obtain g' where
      r: "backward g n = Returns g' ()" by auto
    from backward_rel [OF r] have rel: "bwd_rel g g'"
      and gr': "valid (grad (nodes_f g' ! id_f n))" by simp_all
    from bwd_rel_length [OF rel] bwd_rel_layout [OF rel, THEN layout_this] assms(2)
    have c': "CHECK_NODE g' n = Returns g' ()" unfolding passes_def CHECK_NODE_def by simp
    from v bwd_rel_value_nth [OF rel i] have "valid (value' (nodes_f g' ! id_f n))" by simp
    with gr' c' have "backward g' n = Throws g' (Already_has_gradient (id_f n))"
      unfolding backward_def by (auto simp: valid_def Let_def)
    with r show ?thesis by blast
  qed
  from 1 2 3 show ?thesis by blast
qed

theorem backward_preconditions_witness:
  "lifetime ex_built \<and> passes ex_built node_z
   \<and> backward ex_built node_z = Throws ex_built (Not_calculated 2)
   \<and> lifetime ex_forwarded \<and> passes ex_forwarded node_z
   \<and> (\<exists>g'. backward ex_forwarded node_z = Returns g' ()
         \<and> backward g' node_z = Throws g' (Already_has_gradient 2))"
proof -
  have a: "passes ex_built node_z" "\<not> valid (value' (nodes_f ex_built ! id_f node_z))"
    "id_f node_z = 2"
    by (simp_all add: passes_def ex_built_def node_z_def valid_def ex_node_def)
  have b: "passes ex_forwarded node_z" "valid (value' (nodes_f ex_forwarded ! id_f node_z))"
    "\<not> valid (grad (nodes_f ex_forwarded ! id_f node_z))"
    by (simp_all add: passes_def ex_forwarded_def node_z_def valid_def ex_node_def)
  from backward_preconditions [OF lifetime_ex_built a(1)]
       backward_preconditions [OF lifetime_ex_forwarded b(1)] a b
       lifetime_ex_built lifetime_ex_forwarded
  show ?thesis by simp
qed

section \<open>Memoized forward evaluation, and the calls backward makes for one node\<close>

lemma forward_realized:
  assumes "passes g n" "valid (value' (nodes_f g ! id_f n))"
  shows "forward g n = Returns g (value' (nodes_f g ! id_f n))"
proof -
  from assms(1) have i: "id_f n < length (nodes_f g)" and c: "CHECK_NODE g n = Returns g ()"
    unfolding passes_def CHECK_NODE_def by simp_all
  from i obtain k where k: "length (nodes_f g) = Suc k" by (cases "length (nodes_f g)") auto
  from i assms(2) have "forward_recursive (Suc k) g (id_f n) = Returns g ()" by simp
  with c k show ?thesis unfolding forward_def by simp
qed

lemma fwd_rel_new_calls:
  assumes "fwd_rel b g g'" "p < length (nodes_f g)" "valid (value' (nodes_f g ! p))"
  shows "p \<notin> set (fwd_ids (drop (length (calls g)) (calls g')))"
proof -
  from fwd_relD [OF assms(1)] obtain new where c: "calls g' = calls g @ new"
    and n: "\<forall>p \<in> set (fwd_ids new). p < b \<and> p < length (nodes_f g) \<and>
           \<not> valid (value' (nodes_f g ! p)) \<and> valid (value' (nodes_f g' ! p))"
    by blast
  from c have "drop (length (calls g)) (calls g') = new" by simp
  with n assms(3) show ?thesis by auto
qed

text \<open>
  C6. In every state of a graph no node has had its \<open>Function::forward\<close> called twice.
  A call of \<open>forward\<close> that returns hands out the value stored for the target, leaves
  every value that was there as it was and makes no call for a node that had one; and
  the same call made again returns the same value, leaves the graph as it is and calls
  no function. \<open>add_function\<close> and \<open>backward\<close> change no value and call no
  \<open>Function::forward\<close>.
\<close>

theorem forward_is_memoized:
  fixes g :: "'a::{zero,one} Graph"
  assumes "lifetime g"
  shows "distinct (fwd_ids (calls g))
    \<and> (\<forall>n g' v. forward g n = Returns g' v \<longrightarrow>
          valid v \<and> v = value' (nodes_f g' ! id_f n)
          \<and> (\<forall>p < length (nodes_f g). valid (value' (nodes_f g ! p)) \<longrightarrow>
                value' (nodes_f g' ! p) = value' (nodes_f g ! p)
                \<and> p \<notin> set (fwd_ids (drop (length (calls g)) (calls g'))))
          \<and> forward g' n = Returns g' v)
    \<and> (\<forall>fn as g' n. add_function g fn as = Returns g' n \<longrightarrow>
          calls g' = calls g
          \<and> (\<forall>p < length (nodes_f g). value' (nodes_f g' ! p) = value' (nodes_f g ! p)))
    \<and> (\<forall>n g' u. backward g n = Returns g' u \<longrightarrow>
          fwd_ids (calls g') = fwd_ids (calls g)
          \<and> map value' (nodes_f g') = map value' (nodes_f g))"
proof -
  note inv = lifetime_invariants [OF assms]
  from inv have 1: "distinct (fwd_ids (calls g))" unfolding memo_ok_def by simp
  have 2: "valid v \<and> v = value' (nodes_f g' ! id_f n)
          \<and> (\<forall>p < length (nodes_f g). valid (value' (nodes_f g ! p)) \<longrightarrow>
                value' (nodes_f g' ! p) = value' (nodes_f g ! p)
                \<and> p \<notin> set (fwd_ids (drop (length (calls g)) (calls g'))))
          \<and> forward g' n = Returns g' v"
    if r: "forward g n = Returns g' v" for n g' v
  proof -
    from inv have "args_ok g" "realized_ok g" by simp_all
    note fr = forward_Returns [OF this r]
    from fr have p: "passes g n" and rel: "fwd_rel (Suc (id_f n)) g g'"
      and v: "v = value' (nodes_f g' ! id_f n)" by blast+
    from fr have vv: "valid v" by blast
    with v have vt: "valid (value' (nodes_f g' ! id_f n))" by blast
    from p fwd_rel_length [OF rel] fwd_rel_layout [OF rel, THEN layout_this]
    have "passes g' n" unfolding passes_def by simp
    from forward_realized [OF this vt] v have "forward g' n = Returns g' v" by simp
    with v vv fwd_rel_valid [OF rel] fwd_rel_new_calls [OF rel] show ?thesis by simp
  qed
  have 3: "calls g' = calls g
          \<and> (\<forall>p < length (nodes_f g). value' (nodes_f g' ! p) = value' (nodes_f g ! p))"
    if r: "add_function g fn as = Returns g' n" for fn as g' n
    using add_function_nth_new [OF r] add_function_nth_old [OF r] by simp
  have 4: "fwd_ids (calls g') = fwd_ids (calls g)
          \<and> map value' (nodes_f g') = map value' (nodes_f g)"
    if r: "backward g n = Returns g' u" for n g' u
    using backward_rel [OF r] unfolding bwd_rel_def by simp
  from 1 2 3 4 show ?thesis by blast
qed

theorem forward_is_memoized_witness:
  "lifetime ex_built \<and> lifetime ex_forwarded
   \<and> fwd_ids (calls ex_forwarded) = [0, 1, 2] \<and> distinct (fwd_ids (calls ex_forwarded))
   \<and> forward ex_built node_z = Returns ex_forwarded (Some (scalar_of 7))
   \<and> forward ex_forwarded node_z = Returns ex_forwarded (Some (scalar_of 7))"
proof -
  from forward_is_memoized [OF lifetime_ex_built] ex_forward_z
  have "forward ex_forwarded node_z = Returns ex_forwarded (Some (scalar_of 7))" by blast
  moreover from forward_is_memoized [OF lifetime_ex_forwarded]
  have "distinct (fwd_ids (calls ex_forwarded))" by blast
  moreover have "fwd_ids (calls ex_forwarded) = [0, 1, 2]" by (simp add: ex_forwarded_def)
  ultimately show ?thesis using lifetime_ex_built lifetime_ex_forwarded ex_forward_z by simp
qed

text \<open>
  C1 fails on the code. The node \<open>z\<close> of the example has the two operands \<open>x\<close> and \<open>y\<close>.
  \<open>backward(z)\<close> calls \<open>Function::backward\<close> of \<open>z\<close> twice: first with the value and
  gradient buffer of \<open>x\<close> alone, then with those of \<open>x\<close> and \<open>y\<close>. With the sum as the
  function the gradient of \<open>x\<close> ends as 2 and that of \<open>y\<close> as 1.
\<close>

theorem backward_calls_function_for_every_prefix:
  "args (nodes_f ex_forwarded ! 2) = [0, 1]
   \<and> backward ex_forwarded node_z = Returns ex_backwarded ()
   \<and> drop 3 (calls ex_backwarded) =
       [Constant_call 2 (scalar_of 1),
        Constant_call 0 (scalar_of 0),
        Backward_call 2 [0] [Some (scalar_of 3)] [Some (scalar_of 0)],
        Constant_call 1 (scalar_of 0),
        Backward_call 2 [0, 1] [Some (scalar_of 3), Some (scalar_of 4)]
          [Some (scalar_of 1), Some (scalar_of 0)]]
   \<and> map grad (nodes_f ex_backwarded) =
       [Some (scalar_of 2), Some (scalar_of 1), Some (scalar_of 1)]"
  using ex_backward_z by (simp add: ex_forwarded_def ex_backwarded_def ex_node_def)

section \<open>What a visit of backward calls\<close>

lemma valid_grad_call_backward_nth:
  "p < length (nodes_f g) \<Longrightarrow>
   valid (grad (nodes_f (call_backward g i avs ags) ! p)) = valid (grad (nodes_f g ! p))"
  using map_nth_eq [OF valid_grad_call_backward] by blast

lemma ensure_grad_calls:
  fixes g :: "'a::zero Graph"
  assumes "ensure_grad g a = Returns g1 u" "a < length (nodes_f g)"
  shows "\<exists>new. calls g1 = calls g @ new \<and> list_all (call_ok i) new
    \<and> (\<not> valid (grad (nodes_f g ! a)) \<longrightarrow>
         (\<exists>w. value' (nodes_f g ! a) = Some w \<and>
            Constant_call a (Device_constant (t_device w) (shape (nodes_f g ! a)) 0) \<in> set new))
    \<and> (\<forall>b < length (nodes_f g). b \<noteq> a \<longrightarrow>
         valid (grad (nodes_f g1 ! b)) = valid (grad (nodes_f g ! b)))"
  using ensure_grad_Returns [OF assms(1)]
proof (elim disjE conjE exE)
  assume "valid (grad (nodes_f g ! a))" "g1 = g"
  then show ?thesis by (intro exI [of _ "[]"]) simp
next
  fix w :: "'a Assigned"
  let ?t = "Device_constant (t_device w) (shape (nodes_f g ! a)) (0::'a)"
  assume "\<not> valid (grad (nodes_f g ! a))" "value' (nodes_f g ! a) = Some w"
    and "g1 = record_call (set_grad g a (Some ?t)) (Constant_call a ?t)"
  with assms(2) show ?thesis
    by (intro exI [of _ "[Constant_call a ?t]"]) (simp add: grad_set_grad)
qed

lemma backward_args_calls:
  fixes g :: "'a::zero Graph"
  assumes "backward_args g i as avs ags = Returns g' u"
    and "\<forall>q \<in> set ags. q < length (nodes_f g) \<and> valid (grad (nodes_f g ! q))"
  shows "\<exists>new. calls g' = calls g @ new \<and> list_all (call_ok i) new \<and>
     (\<forall>a \<in> set as. a < length (nodes_f g) \<and> valid (grad (nodes_f g' ! a)) \<and>
        (\<not> valid (grad (nodes_f g ! a)) \<longrightarrow>
           (\<exists>w. value' (nodes_f g ! a) = Some w \<and>
              Constant_call a (Device_constant (t_device w) (shape (nodes_f g ! a)) 0) \<in> set new)))"
  using assms
proof (induction as arbitrary: g avs ags)
  case Nil
  then show ?case by simp
next
  case (Cons a as)
  let ?g2 = "\<lambda>g1. call_backward g1 i (avs @ [a]) (ags @ [a])"
  from Cons.prems(1) obtain g1 u1 where a: "a < length (nodes_f g)"
    and e: "ensure_grad g a = Returns g1 u1"
    and r: "backward_args (?g2 g1) i as (avs @ [a]) (ags @ [a]) = Returns g' u"
    by (auto simp: bind_Returns_iff split: if_splits)
  from ensure_grad_rel [OF e a] have r01: "bwd_rel g g1"
    and va1: "valid (grad (nodes_f g1 ! a))" by simp_all
  have len1: "length (nodes_f g1) = length (nodes_f g)" using r01 by (rule bwd_rel_length)
  have r12: "bwd_rel g1 (?g2 g1)" by (rule bwd_rel_call_backward)
  from r01 r12 have r02: "bwd_rel g (?g2 g1)" by (rule bwd_rel_trans)
  have r2: "bwd_rel (?g2 g1) g'" using r by (rule backward_args_rel)
  have ags1: "\<forall>q \<in> set (ags @ [a]). q < length (nodes_f g1) \<and> valid (grad (nodes_f g1 ! q))"
    using Cons.prems(2) bwd_rel_grad_valid [OF r01] va1 a len1 by auto
  then have ags2: "\<forall>q \<in> set (ags @ [a]). q < length (nodes_f (?g2 g1)) \<and> valid (grad (nodes_f (?g2 g1) ! q))"
    by (simp add: valid_grad_call_backward_nth)
  from Cons.IH [OF r ags2] obtain new2 where c2: "calls g' = calls (?g2 g1) @ new2"
    and ok2: "list_all (call_ok i) new2"
    and post2: "\<forall>b \<in> set as. b < length (nodes_f (?g2 g1)) \<and> valid (grad (nodes_f g' ! b)) \<and>
        (\<not> valid (grad (nodes_f (?g2 g1) ! b)) \<longrightarrow>
           (\<exists>w. value' (nodes_f (?g2 g1) ! b) = Some w \<and>
              Constant_call b (Device_constant (t_device w) (shape (nodes_f (?g2 g1) ! b)) 0) \<in> set new2))"
    by blast
  define ev where "ev = Backward_call i (ags @ [a]) (map (\<lambda>p. value' (nodes_f g1 ! p)) (avs @ [a]))
     (map (\<lambda>p. grad (nodes_f g1 ! p)) (ags @ [a]))"
  have c12: "calls (?g2 g1) = calls g1 @ [ev]" unfolding ev_def by (rule calls_call_backward)
  have okev: "call_ok i ev" unfolding ev_def using ags1 by (simp add: list_all_iff)
  from ensure_grad_calls [OF e a, of i] obtain new1 where c01: "calls g1 = calls g @ new1"
    and ok1: "list_all (call_ok i) new1"
    and created: "\<not> valid (grad (nodes_f g ! a)) \<longrightarrow>
         (\<exists>w. value' (nodes_f g ! a) = Some w \<and>
            Constant_call a (Device_constant (t_device w) (shape (nodes_f g ! a)) 0) \<in> set new1)"
    and others: "\<forall>b < length (nodes_f g). b \<noteq> a \<longrightarrow>
         valid (grad (nodes_f g1 ! b)) = valid (grad (nodes_f g ! b))"
    by blast
  let ?new = "new1 @ ev # new2"
  have "calls g' = calls g @ ?new" using c01 c12 c2 by simp
  moreover have "list_all (call_ok i) ?new" using ok1 okev ok2 by simp
  moreover have "\<forall>b \<in> set (a # as). b < length (nodes_f g) \<and> valid (grad (nodes_f g' ! b)) \<and>
        (\<not> valid (grad (nodes_f g ! b)) \<longrightarrow>
           (\<exists>w. value' (nodes_f g ! b) = Some w \<and>
              Constant_call b (Device_constant (t_device w) (shape (nodes_f g ! b)) 0) \<in> set ?new))"
  proof
    fix b assume b: "b \<in> set (a # as)"
    show "b < length (nodes_f g) \<and> valid (grad (nodes_f g' ! b)) \<and>
        (\<not> valid (grad (nodes_f g ! b)) \<longrightarrow>
           (\<exists>w. value' (nodes_f g ! b) = Some w \<and>
              Constant_call b (Device_constant (t_device w) (shape (nodes_f g ! b)) 0) \<in> set ?new))"
    proof (cases "b = a")
      case True
      from va1 a len1 have "valid (grad (nodes_f (?g2 g1) ! a))"
        by (simp add: valid_grad_call_backward_nth)
      with bwd_rel_grad_valid [OF r2, of a] a len1 have "valid (grad (nodes_f g' ! a))" by simp
      with True a created show ?thesis by auto
    next
      case False
      with b have bs: "b \<in> set as" by simp
      with post2 len1 have bl: "b < length (nodes_f g)" and vb: "valid (grad (nodes_f g' ! b))"
        by simp_all
      have "\<exists>w. value' (nodes_f g ! b) = Some w \<and>
              Constant_call b (Device_constant (t_device w) (shape (nodes_f g ! b)) 0) \<in> set ?new"
        if nv: "\<not> valid (grad (nodes_f g ! b))"
      proof -
        from others bl False nv have "\<not> valid (grad (nodes_f g1 ! b))" by simp
        with bl len1 have "\<not> valid (grad (nodes_f (?g2 g1) ! b))"
          by (simp add: valid_grad_call_backward_nth)
        with post2 bs obtain w where w: "value' (nodes_f (?g2 g1) ! b) = Some w"
          and c: "Constant_call b (Device_constant (t_device w) (shape (nodes_f (?g2 g1) ! b)) 0) \<in> set new2"
          by blast
        from bwd_rel_value_nth [OF r02 bl] w have "value' (nodes_f g ! b) = Some w" by simp
        moreover from layout_shape [OF bwd_rel_layout [OF r02] bl]
        have "shape (nodes_f (?g2 g1) ! b) = shape (nodes_f g ! b)" .
        ultimately show ?thesis using c by auto
      qed
      with bl vb show ?thesis by blast
    qed
  qed
  ultimately show ?case by blast
qed

lemma backward_node_skip:
  "p < length (nodes_f h) \<Longrightarrow> \<not> valid (value' (nodes_f h ! p)) \<Longrightarrow> backward_node h p = Returns h ()"
  unfolding backward_node_def by simp

lemma backward_node_calls:
  fixes g :: "'a::zero Graph"
  assumes "backward_node g i = Returns g' u" "valid (value' (nodes_f g ! i))"
  shows "\<exists>new. calls g' = calls g @ new \<and> list_all (call_ok i) new \<and>
     (\<forall>a \<in> set (args (nodes_f g ! i)). valid (grad (nodes_f g' ! a)) \<and>
        (\<not> valid (grad (nodes_f g ! a)) \<longrightarrow>
           (\<exists>w. value' (nodes_f g ! a) = Some w \<and>
              Constant_call a (Device_constant (t_device w) (shape (nodes_f g ! a)) 0) \<in> set new)))"
proof -
  from assms have "backward_args g i (args (nodes_f g ! i)) [] [] = Returns g' u"
    unfolding backward_node_def by (simp split: if_splits)
  from backward_args_calls [OF this] show ?thesis by fastforce
qed

lemma backward_node_extends:
  fixes g :: "'a::zero Graph"
  assumes "backward_node g i = Returns g' u"
  shows "\<exists>new. calls g' = calls g @ new"
proof (cases "valid (value' (nodes_f g ! i))")
  case True
  from backward_node_calls [OF assms True] show ?thesis by blast
next
  case False
  with assms have "g' = g" unfolding backward_node_def by (simp split: if_splits)
  then show ?thesis by simp
qed

lemma backward_loop_extends:
  fixes g :: "'a::zero Graph"
  shows "backward_loop g i = Returns g' u \<Longrightarrow> \<exists>new. calls g' = calls g @ new"
proof (induction i arbitrary: g)
  case 0
  then show ?case by (simp add: backward_node_extends)
next
  case (Suc i)
  from Suc.prems obtain g1 u1 where n: "backward_node g (Suc i) = Returns g1 u1"
    and l: "backward_loop g1 i = Returns g' u" by (auto simp: bind_Returns_iff)
  from backward_node_extends [OF n] Suc.IH [OF l] show ?case by auto
qed

section \<open>The sweep of backward\<close>

lemma ensure_grad_ensure_exists:
  fixes g :: "'a::zero Graph"
  assumes "valid (value' (nodes_f g ! a))"
  shows "ensure_grad g a = Returns (ensure_exists g a) ()"
  using assms unfolding ensure_grad_def ensure_exists_def
  by (auto simp: valid_def Let_def split: option.splits)

lemma backward_args_fold:
  fixes g :: "'a::zero Graph"
  assumes "\<forall>a \<in> set (drop k as). a < length (nodes_f g) \<and> valid (value' (nodes_f g ! a))"
    and "k \<le> length as"
  shows "backward_args g i (drop k as) (take k as) (take k as)
     = Returns (foldl (\<lambda>h j. call_backward (ensure_exists h (as ! j)) i
                               (take (Suc j) as) (take (Suc j) as)) g [k..<length as]) ()"
  using assms
proof (induction "length as - k" arbitrary: g k)
  case 0
  then show ?case by simp
next
  case (Suc d)
  from Suc.hyps(2) have k: "k < length as" by simp
  let ?a = "as ! k"
  from k have dr: "drop k as = ?a # drop (Suc k) as" by (simp add: Cons_nth_drop_Suc)
  from k have tk: "take k as @ [?a] = take (Suc k) as" by (simp add: take_Suc_conv_app_nth)
  from Suc.prems(1) dr have a: "?a < length (nodes_f g)" and v: "valid (value' (nodes_f g ! ?a))"
    by simp_all
  let ?g1 = "ensure_exists g ?a"
  let ?g2 = "call_backward ?g1 i (take (Suc k) as) (take (Suc k) as)"
  note e = ensure_grad_ensure_exists [OF v]
  from ensure_grad_rel [OF e a] have "bwd_rel g ?g1" by simp
  from this bwd_rel_call_backward have r: "bwd_rel g ?g2" by (rule bwd_rel_trans)
  have pre: "\<forall>b \<in> set (drop (Suc k) as). b < length (nodes_f ?g2) \<and> valid (value' (nodes_f ?g2 ! b))"
    using Suc.prems(1) dr bwd_rel_length [OF r] bwd_rel_value_nth [OF r] by simp
  from Suc.hyps(2) have d: "d = length as - Suc k" by simp
  from k have le: "Suc k \<le> length as" by simp
  have up: "[k..<length as] = k # [Suc k..<length as]" using k by (simp add: upt_conv_Cons)
  have "backward_args g i (drop k as) (take k as) (take k as)
      = backward_args ?g2 i (drop (Suc k) as) (take (Suc k) as) (take (Suc k) as)"
    unfolding dr using a e tk by simp
  also note Suc.hyps(1) [OF d pre le]
  finally show ?case unfolding up by simp
qed

lemma backward_node_visit_node:
  fixes g :: "'a::zero Graph"
  assumes "args_ok g" "realized_ok g" "i < length (nodes_f g)"
  shows "backward_node g i = Returns (visit_node g i) ()"
proof (cases "valid (value' (nodes_f g ! i))")
  case True
  from assms(1,3) have "\<forall>a \<in> set (args (nodes_f g ! i)). a < length (nodes_f g)"
    unfolding args_ok_def by fastforce
  moreover from assms(2,3) True
  have "\<forall>a \<in> set (args (nodes_f g ! i)). valid (value' (nodes_f g ! a))"
    unfolding realized_ok_def by simp
  ultimately have "\<forall>a \<in> set (drop 0 (args (nodes_f g ! i))).
      a < length (nodes_f g) \<and> valid (value' (nodes_f g ! a))" by simp
  from backward_args_fold [OF this, of i] True assms(3) show ?thesis
    unfolding backward_node_def visit_node_def by simp
next
  case False
  with assms(3) show ?thesis unfolding backward_node_def visit_node_def by simp
qed

lemma sweep_Suc: "sweep g (Suc t) = sweep (visit_node g (Suc t)) t"
  unfolding sweep_def by simp

lemma backward_loop_sweep:
  fixes g :: "'a::zero Graph"
  shows "args_ok g \<Longrightarrow> realized_ok g \<Longrightarrow> t < length (nodes_f g) \<Longrightarrow>
    backward_loop g t = Returns (sweep g t) ()"
proof (induction t arbitrary: g)
  case 0
  from backward_node_visit_node [OF 0] show ?case by (simp add: sweep_def)
next
  case (Suc t)
  note n = backward_node_visit_node [OF Suc.prems]
  note r = backward_node_rel [OF n]
  from Suc.prems(3) bwd_rel_length [OF r] have "t < length (nodes_f (visit_node g (Suc t)))" by simp
  from Suc.IH [OF bwd_rel_args_ok [OF r Suc.prems(1)] bwd_rel_realized_ok [OF r Suc.prems(1,2)] this] n
  show ?case by (simp add: sweep_Suc)
qed

text \<open>
  C3. For a graph with fewer than \<open>2^31\<close> nodes in any of its states and a target that
  passes the checks, has a value \<open>v\<close> and has no gradient, \<open>backward\<close> returns, and the
  graph it leaves is the one the spec describes: the target's gradient is set to the
  tensor of ones of the target's shape (\<open>seed_ones\<close>), then the positions from the
  target's down to 0 are visited in this order (\<open>sweep\<close>); a node without a value is
  left out, and for a node with a value every operand in turn has its gradient buffer
  made of zeros of the operand's shape if it is absent, and kept if it is there, before
  \<open>Function::backward\<close> of the node is called (\<open>visit_node\<close>, \<open>ensure_exists\<close>). The first
  call \<open>backward\<close> makes is the one for the tensor of ones.
\<close>

theorem backward_seeds_then_sweeps_down:
  fixes g :: "'a::{zero,one} Graph"
  assumes "lifetime g" "length (nodes_f g) < 2 ^ 31" "passes g n"
    and "value' (nodes_f g ! id_f n) = Some v" "grad (nodes_f g ! id_f n) = None"
  shows "backward g n = Returns (sweep (seed_ones g (id_f n) v) (id_f n)) ()
    \<and> grad (nodes_f (seed_ones g (id_f n) v) ! id_f n)
        = Some (Device_constant (t_device v) (shape (nodes_f g ! id_f n)) 1)
    \<and> t_shape (Device_constant (t_device v) (shape (nodes_f g ! id_f n)) (1::'a))
        = shape (nodes_f g ! id_f n)
    \<and> list_all (\<lambda>x. x = 1)
        (t_data (Device_constant (t_device v) (shape (nodes_f g ! id_f n)) (1::'a)))
    \<and> (\<exists>rest. calls (sweep (seed_ones g (id_f n) v) (id_f n))
          = calls g @ Constant_call (id_f n)
              (Device_constant (t_device v) (shape (nodes_f g ! id_f n)) 1) # rest)"
proof -
  let ?t = "Device_constant (t_device v) (shape (nodes_f g ! id_f n)) (1::'a)"
  let ?g1 = "seed_ones g (id_f n) v"
  note inv = lifetime_invariants [OF assms(1)]
  from assms(3) have i: "id_f n < length (nodes_f g)" and c: "CHECK_NODE g n = Returns g ()"
    unfolding passes_def CHECK_NODE_def by simp_all
  have b: "backward g n = backward_loop ?g1 (id_f n)"
    unfolding backward_def seed_ones_def using c assms(4,5) by (simp add: valid_def Let_def)
  from assms(4) have "valid (value' (nodes_f g ! id_f n))" by (simp add: valid_def)
  from bwd_rel_set_grad [OF i this] have r1: "bwd_rel g ?g1" unfolding seed_ones_def .
  from inv have ok: "args_ok g" "realized_ok g" by simp_all
  from i bwd_rel_length [OF r1] have i1: "id_f n < length (nodes_f ?g1)" by simp
  from backward_loop_sweep [OF bwd_rel_args_ok [OF r1 ok(1)] bwd_rel_realized_ok [OF r1 ok] i1]
  have l: "backward_loop ?g1 (id_f n) = Returns (sweep ?g1 (id_f n)) ()" .
  with b have 1: "backward g n = Returns (sweep ?g1 (id_f n)) ()" by simp
  have 2: "grad (nodes_f ?g1 ! id_f n) = Some ?t"
    unfolding seed_ones_def using i by (simp add: grad_set_grad)
  have 3: "t_shape ?t = shape (nodes_f g ! id_f n)" "list_all (\<lambda>x. x = 1) (t_data ?t)"
    unfolding Device_constant_def by (simp_all add: list_all_iff)
  from backward_loop_extends [OF l] obtain rest where
    "calls (sweep ?g1 (id_f n)) = calls ?g1 @ rest" by blast
  then have "calls (sweep ?g1 (id_f n)) = calls g @ Constant_call (id_f n) ?t # rest"
    unfolding seed_ones_def by simp
  then have 4: "\<exists>rest. calls (sweep ?g1 (id_f n)) = calls g @ Constant_call (id_f n) ?t # rest"
    by blast
  from 1 2 3 4 show ?thesis by blast
qed

theorem backward_seeds_then_sweeps_down_witness:
  "lifetime ex_forwarded \<and> length (nodes_f ex_forwarded) < 2 ^ 31 \<and> passes ex_forwarded node_z
   \<and> value' (nodes_f ex_forwarded ! id_f node_z) = Some (scalar_of 7)
   \<and> grad (nodes_f ex_forwarded ! id_f node_z) = None
   \<and> backward ex_forwarded node_z = Returns ex_backwarded ()
   \<and> sweep (seed_ones ex_forwarded 2 (scalar_of 7)) 2 = ex_backwarded
   \<and> map grad (nodes_f ex_backwarded) = [Some (scalar_of 2), Some (scalar_of 1), Some (scalar_of 1)]"
proof -
  have a: "passes ex_forwarded node_z"
    "value' (nodes_f ex_forwarded ! id_f node_z) = Some (scalar_of 7)"
    "grad (nodes_f ex_forwarded ! id_f node_z) = None"
    by (simp_all add: passes_def ex_forwarded_def node_z_def ex_node_def)
  have i: "id_f node_z = 2" by (simp add: node_z_def)
  have b: "length (nodes_f ex_forwarded) < 2 ^ 31" by (simp add: ex_forwarded_def)
  from backward_seeds_then_sweeps_down [OF lifetime_ex_forwarded b a]
  have "backward ex_forwarded node_z
      = Returns (sweep (seed_ones ex_forwarded (id_f node_z) (scalar_of 7)) (id_f node_z)) ()"
    by blast
  with ex_backward_z i have "sweep (seed_ones ex_forwarded 2 (scalar_of 7)) 2 = ex_backwarded"
    by simp
  moreover have "map grad (nodes_f ex_backwarded)
      = [Some (scalar_of 2), Some (scalar_of 1), Some (scalar_of 1)]"
    by (simp add: ex_backwarded_def ex_node_def)
  ultimately show ?thesis using lifetime_ex_forwarded a b ex_backward_z by simp
qed

section \<open>The number of calls of Function::backward, and the termination of forward\<close>

lemma bwd_calls_append [simp]: "bwd_calls (xs @ ys) = bwd_calls xs @ bwd_calls ys"
  by (induction xs rule: bwd_calls.induct) auto

lemma prefixes_Cons:
  "map (\<lambda>j. f (take (Suc j) (a # as))) [0..<Suc (length as)]
   = f [a] # map (\<lambda>j. f (a # take (Suc j) as)) [0..<length as]"
proof -
  have "[0..<Suc (length as)] = 0 # map Suc [0..<length as]"
    by (simp only: upt_conv_Cons [of 0] map_Suc_upt)
  then show ?thesis by (simp add: comp_def del: upt_Suc)
qed

lemma backward_args_bwd_calls:
  fixes g :: "'a::zero Graph"
  shows "backward_args g i as avs ags = Returns g' u \<Longrightarrow>
    \<exists>new. calls g' = calls g @ new \<and>
      bwd_calls new = map (\<lambda>j. (i, ags @ take (Suc j) as)) [0..<length as]"
proof (induction as arbitrary: g avs ags)
  case Nil
  then show ?case by simp
next
  case (Cons a as)
  from Cons.prems obtain g1 u1 where a: "a < length (nodes_f g)"
    and e: "ensure_grad g a = Returns g1 u1"
    and r: "backward_args (call_backward g1 i (avs @ [a]) (ags @ [a])) i as (avs @ [a]) (ags @ [a])
              = Returns g' u"
    by (auto simp: bind_Returns_iff split: if_splits)
  from ensure_grad_Returns [OF e] obtain new1 where c1: "calls g1 = calls g @ new1"
    and b1: "bwd_calls new1 = []"
    by (auto intro: that [of "[]"])
  from Cons.IH [OF r] obtain new2 where
    c2: "calls g' = calls (call_backward g1 i (avs @ [a]) (ags @ [a])) @ new2"
    and b2: "bwd_calls new2 = map (\<lambda>j. (i, (ags @ [a]) @ take (Suc j) as)) [0..<length as]"
    by blast
  let ?ev = "Backward_call i (ags @ [a]) (map (\<lambda>p. value' (nodes_f g1 ! p)) (avs @ [a]))
     (map (\<lambda>p. grad (nodes_f g1 ! p)) (ags @ [a]))"
  have "calls g' = calls g @ (new1 @ ?ev # new2)"
    using c1 c2 by (simp add: calls_call_backward)
  moreover have "bwd_calls (new1 @ ?ev # new2)
      = map (\<lambda>j. (i, ags @ take (Suc j) (a # as))) [0..<length (a # as)]"
    using b1 b2 prefixes_Cons [of "\<lambda>xs. (i, ags @ xs)" a as] by simp
  ultimately show ?case by blast
qed

text \<open>
  How often \<open>Function::backward\<close> is called: the visit of a node with a value and
  the operands \<open>as\<close> calls \<open>Function::backward\<close> of that node once for every operand, the
  call number \<open>j\<close> with the buffers of the first \<open>j\<close> operands; so the complete lists are
  handed over in the last call only, and a node with one operand gets one call.
\<close>

theorem backward_node_calls_once_per_operand:
  fixes g :: "'a::zero Graph"
  assumes "valid (value' (nodes_f g ! i))" "backward_node g i = Returns g' u"
  shows "bwd_calls (drop (length (calls g)) (calls g'))
     = map (\<lambda>j. (i, take (Suc j) (args (nodes_f g ! i)))) [0..<length (args (nodes_f g ! i))]"
proof -
  from assms have "backward_args g i (args (nodes_f g ! i)) [] [] = Returns g' u"
    unfolding backward_node_def by (simp split: if_splits)
  from backward_args_bwd_calls [OF this] obtain new where "calls g' = calls g @ new"
    and "bwd_calls new = map (\<lambda>j. (i, [] @ take (Suc j) (args (nodes_f g ! i))))
           [0..<length (args (nodes_f g ! i))]" by blast
  then show ?thesis by simp
qed

lemma ex_backward_node_z:
  "backward_node (record_call (set_grad ex_forwarded 2 (Some (scalar_of 1)))
      (Constant_call 2 (scalar_of 1))) 2 = Returns ex_backwarded ()"
  by (simp add: ex_forwarded_def ex_backwarded_def ex_node_def
        numeral_2_eq_2 valid_def set_grad_def record_call_def sum_fn_def input_fn_def scalar_of_def
        backward_node_def ensure_grad_def call_backward_def Device_constant_def
        num_total_elements_def Shape_scalar_def Let_def)

theorem backward_node_calls_once_per_operand_witness:
  "valid (value' (nodes_f (record_call (set_grad ex_forwarded 2 (Some (scalar_of 1)))
      (Constant_call 2 (scalar_of 1))) ! 2))
   \<and> backward_node (record_call (set_grad ex_forwarded 2 (Some (scalar_of 1)))
      (Constant_call 2 (scalar_of 1))) 2 = Returns ex_backwarded ()
   \<and> bwd_calls (drop 4 (calls ex_backwarded)) = [(2, [0]), (2, [0, 1])]"
proof -
  let ?g = "record_call (set_grad ex_forwarded 2 (Some (scalar_of 1))) (Constant_call 2 (scalar_of 1))"
  have v: "valid (value' (nodes_f ?g ! 2))"
    by (simp add: ex_forwarded_def ex_node_def set_grad_def valid_def)
  have l: "length (calls ?g) = 4" by (simp add: ex_forwarded_def)
  have a: "args (nodes_f ?g ! 2) = [0, 1]"
    by (simp add: ex_forwarded_def ex_node_def set_grad_def)
  have u: "[0..<length [0::nat, 1]] = [0, 1]" by (simp add: upt_rec)
  from backward_node_calls_once_per_operand [OF v ex_backward_node_z]
  have "bwd_calls (drop 4 (calls ex_backwarded)) = [(2, [0]), (2, [0, 1])]"
    unfolding l a u by simp
  with v ex_backward_node_z show ?thesis by simp
qed

text \<open>
  Termination of \<open>forward\<close>: it returns in every state of a graph for every handle that
  passes the checks, with a value for the target; the recursion ends.
\<close>

theorem forward_returns_a_value:
  fixes g :: "'a::{zero,one} Graph"
  assumes "lifetime g" "passes g n"
  shows "\<exists>g' v. forward g n = Returns g' v \<and> valid v"
proof -
  from lifetime_invariants [OF assms(1)] have ok: "args_ok g" "realized_ok g" by simp_all
  from forward_returns [OF ok assms(2)] obtain g' v where r: "forward g n = Returns g' v"
    by blast
  from forward_Returns [OF ok r] have "valid v" by blast
  with r show ?thesis by blast
qed

theorem forward_returns_a_value_witness:
  "lifetime ex_built \<and> passes ex_built node_z
   \<and> (\<exists>g' v. forward ex_built node_z = Returns g' v \<and> valid v)"
proof -
  have a: "passes ex_built node_z" by (simp add: passes_def ex_built_def node_z_def)
  from forward_returns_a_value [OF lifetime_ex_built a] lifetime_ex_built a
  show ?thesis by simp
qed

end
